theory Spec2Isabelle
  imports Complex_Main "HOL-Library.Multiset" "HOL-Library.Sublist" "HOL-Library.AList"
begin

section \<open>The IMI index of \<^verbatim>\<open>src/Indexes/imi_index.py\<close>\<close>

text \<open>
  The development follows the methods of class \<^verbatim>\<open>IMIIndex\<close> one by one.
  Floating-point numbers are not modelled: the scalar type \<open>'f\<close> is any linearly
  ordered type with an addition, and everything that numpy, scipy and scikit-learn compute
  on it is a field of the record \<open>numlib\<close>, constrained in the theorems only by what
  the libraries document. Python integers are \<open>int\<close> or, where they are indices and
  lengths, \<open>nat\<close>. A dictionary is an association list in insertion order, which is
  the order Python iterates it in. Every exception the modelled code can raise is a
  value \<open>Inl e\<close>.
\<close>

subsection \<open>Exceptions\<close>

datatype error = ValueError | IndexError | KeyError | TypeError | AssertionError | OverflowError

subsection \<open>Library functions\<close>

text \<open>
  \<^item> \<open>cosine u v\<close>: one entry of \<^verbatim>\<open>cdist(..., metric="cosine")\<close>, for the rows \<open>u\<close>, \<open>v\<close>;
  \<^item> \<open>float16 x\<close>: \<^verbatim>\<open>astype(np.float16)\<close> on one scalar;
  \<^item> \<open>argpartition a kth\<close>: \<^verbatim>\<open>np.argpartition(a, kth)\<close> for \<open>kth\<close> in range;
  \<^item> \<open>argsort a\<close>: \<^verbatim>\<open>np.argsort(a)\<close> (default kind, which is not stable);
  \<^item> \<open>kmeans k X\<close>: \<^verbatim>\<open>KMeans(n_clusters=k, random_state=42).fit(X).cluster_centers_\<close>.
\<close>

record 'f numlib =
  cosine :: "'f list \<Rightarrow> 'f list \<Rightarrow> 'f"
  float16 :: "'f \<Rightarrow> 'f"
  argpartition :: "'f list \<Rightarrow> nat \<Rightarrow> nat list"
  argsort :: "'f list \<Rightarrow> nat list"
  kmeans :: "nat \<Rightarrow> 'f list list \<Rightarrow> 'f list list"

text \<open>
  What numpy documents of \<^verbatim>\<open>argpartition\<close>: the result is a permutation of the
  indices, the element at position \<open>kth\<close> is in its sorted position, no element before
  it is larger and no element after it is smaller. The order inside the two parts is
  undefined.
\<close>

definition argpartition_ok :: "('f::linorder) list \<Rightarrow> nat \<Rightarrow> nat list \<Rightarrow> bool" where
  "argpartition_ok a kth p \<longleftrightarrow>
     mset p = mset [0..<length a] \<and>
     (\<forall>i<kth. a ! (p ! i) \<le> a ! (p ! kth)) \<and>
     (\<forall>i<length a. kth < i \<longrightarrow> a ! (p ! kth) \<le> a ! (p ! i))"

definition argpartition_contract :: "('f::linorder list \<Rightarrow> nat \<Rightarrow> nat list) \<Rightarrow> bool" where
  "argpartition_contract ap \<longleftrightarrow> (\<forall>a kth. kth < length a \<longrightarrow> argpartition_ok a kth (ap a kth))"

text \<open>What numpy documents of \<^verbatim>\<open>argsort\<close>: a permutation of the indices that sorts.\<close>

definition argsort_ok :: "('f::linorder) list \<Rightarrow> nat list \<Rightarrow> bool" where
  "argsort_ok a p \<longleftrightarrow> mset p = mset [0..<length a] \<and> sorted (map (\<lambda>i. a ! i) p)"

definition argsort_contract :: "('f::linorder list \<Rightarrow> nat list) \<Rightarrow> bool" where
  "argsort_contract srt \<longleftrightarrow> (\<forall>a. argsort_ok a (srt a))"

text \<open>scikit-learn returns exactly \<open>k\<close> cluster centres.\<close>

definition kmeans_contract :: "(nat \<Rightarrow> 'f list list \<Rightarrow> 'f list list) \<Rightarrow> bool" where
  "kmeans_contract km \<longleftrightarrow> (\<forall>k X. 0 < k \<and> k \<le> length X \<longrightarrow> length (km k X) = k)"

text \<open>\<^verbatim>\<open>np.argpartition(a, kth)\<close> with a Python integer: a negative \<open>kth\<close> counts from
  the end, and a \<open>kth\<close> out of bounds raises \<^verbatim>\<open>ValueError\<close>.\<close>

definition np_argpartition :: "'f numlib \<Rightarrow> 'f list \<Rightarrow> int \<Rightarrow> error + nat list" where
  "np_argpartition np a kth =
     (let n = int (length a); k = (if kth < 0 then kth + n else kth)
      in if 0 \<le> k \<and> k < n then Inr (argpartition np a (nat k)) else Inl ValueError)"

text \<open>Python's slice \<^verbatim>\<open>xs[:k]\<close>.\<close>

definition slice_to :: "int \<Rightarrow> 'b list \<Rightarrow> 'b list" where
  "slice_to k xs = (if k < 0 then take (nat (int (length xs) + k)) xs else take (nat k) xs)"

text \<open>Python's slice \<^verbatim>\<open>xs[i:j]\<close> for non-negative \<open>i\<close> and \<open>j\<close>.\<close>

definition slice :: "nat \<Rightarrow> nat \<Rightarrow> 'b list \<Rightarrow> 'b list" where
  "slice i j xs = take (j - i) (drop i xs)"

text \<open>Indexing an array with an array of non-negative indices, \<^verbatim>\<open>xs[idx]\<close>.\<close>

definition fancy_index :: "'b list \<Rightarrow> nat list \<Rightarrow> error + 'b list" where
  "fancy_index xs idx =
     (if list_all (\<lambda>i. i < length xs) idx then Inr (map (\<lambda>i. xs ! i) idx) else Inl IndexError)"

text \<open>\<^verbatim>\<open>np.argmin\<close> of one row: the first position of the minimum.\<close>

definition argmin_index :: "('f::linorder) list \<Rightarrow> nat" where
  "argmin_index row = length (takeWhile (\<lambda>x. x \<noteq> Min (set row)) row)"

definition np_argmin :: "('f::linorder) list \<Rightarrow> error + nat" where
  "np_argmin row = (if row = [] then Inl ValueError else Inr (argmin_index row))"

text \<open>Applying a function that may raise to every element; the first exception wins.\<close>

fun map_err :: "('b \<Rightarrow> error + 'c) \<Rightarrow> 'b list \<Rightarrow> error + 'c list" where
  "map_err f [] = Inr []"
| "map_err f (x # xs) =
     (case f x of Inl e \<Rightarrow> Inl e
      | Inr y \<Rightarrow> (case map_err f xs of Inl e \<Rightarrow> Inl e | Inr ys \<Rightarrow> Inr (y # ys)))"

definition cdist :: "'f numlib \<Rightarrow> 'f list list \<Rightarrow> 'f list list \<Rightarrow> 'f list list" where
  "cdist np A B = map (\<lambda>a. map (\<lambda>b. cosine np a b) B) A"

text \<open>\<^verbatim>\<open>heapq.nsmallest(n, xs, key)\<close> is documented as \<^verbatim>\<open>sorted(xs, key=key)[:n]\<close>;
  Python's \<^verbatim>\<open>sorted\<close> is stable, as \<open>sort_key\<close> is.\<close>

definition nsmallest :: "int \<Rightarrow> ('b \<Rightarrow> 'f::linorder) \<Rightarrow> 'b list \<Rightarrow> 'b list" where
  "nsmallest n key xs = take (nat n) (sort_key key xs)"

text \<open>\<^verbatim>\<open>np.searchsorted(a, v, side='right')\<close> on a sorted array: the number of
  elements that are at most \<open>v\<close>.\<close>

definition searchsorted_right :: "int list \<Rightarrow> int \<Rightarrow> nat" where
  "searchsorted_right a v = length (filter (\<lambda>x. x \<le> v) a)"

subsection \<open>The index handle\<close>

type_synonym inverted_lists = "((nat \<times> nat) \<times> nat list) list"

record 'f IMIIndex =
  nlist :: nat
  dimension :: nat
  subspace_dim :: nat
  vectors :: "'f list list"
  centroids1 :: "'f list list option"
  centroids2 :: "'f list list option"
  index_inverted_lists :: inverted_lists
  index_path :: "string option"

definition init :: "'f list list \<Rightarrow> nat \<Rightarrow> nat \<Rightarrow> string option \<Rightarrow> error + 'f IMIIndex" where
  "init vecs nl dimen path =
     (if dimen mod 2 \<noteq> 0 then Inl AssertionError
      else Inr \<lparr> nlist = nl, dimension = dimen, subspace_dim = dimen div 2, vectors = vecs,
                 centroids1 = None, centroids2 = None, index_inverted_lists = [],
                 index_path = path \<rparr>)"

subsection \<open>\<^verbatim>\<open>train\<close>\<close>

definition grid_keys :: "nat \<Rightarrow> (nat \<times> nat) list" where
  "grid_keys n = concat (map (\<lambda>i. map (\<lambda>j. (i, j)) [0..<n]) [0..<n])"

text \<open>scikit-learn raises \<^verbatim>\<open>ValueError\<close> for no cluster and for fewer samples than clusters.\<close>

definition train :: "'f numlib \<Rightarrow> 'f IMIIndex \<Rightarrow> error + 'f IMIIndex" where
  "train np self =
     (let subspace1 = map (take (subspace_dim self)) (vectors self);
          subspace2 = map (drop (subspace_dim self)) (vectors self)
      in if nlist self = 0 \<or> length (vectors self) < nlist self then Inl ValueError
         else Inr (self \<lparr> centroids1 := Some (kmeans np (nlist self) subspace1),
                          centroids2 := Some (kmeans np (nlist self) subspace2),
                          index_inverted_lists :=
                            fold (\<lambda>key d. AList.update key [] d) (grid_keys (nlist self))
                              (index_inverted_lists self) \<rparr>))"

subsection \<open>\<^verbatim>\<open>add\<close>\<close>

definition batch_size :: nat where
  "batch_size = 500000"

text \<open>\<^verbatim>\<open>range(0, stop, step)\<close> for a positive step.\<close>

definition range_step :: "nat \<Rightarrow> nat \<Rightarrow> nat list" where
  "range_step stop step = map (\<lambda>k. k * step) [0..<(stop + step - 1) div step]"

text \<open>The inner loop: \<^verbatim>\<open>self.index_inverted_lists[(a1, a2)].append(i)\<close>.\<close>

fun assign_batch :: "inverted_lists \<Rightarrow> (nat \<times> (nat \<times> nat)) list \<Rightarrow> error + inverted_lists" where
  "assign_batch d [] = Inr d"
| "assign_batch d ((i, key) # rest) =
     (case map_of d key of
        None \<Rightarrow> Inl KeyError
      | Some l \<Rightarrow> assign_batch (AList.update key (l @ [i]) d) rest)"

text \<open>One pass of the outer loop, for the batch that starts at \<open>start_idx\<close>.\<close>

definition add_batch ::
  "'f::linorder numlib \<Rightarrow> 'f IMIIndex \<Rightarrow> nat \<Rightarrow> inverted_lists \<Rightarrow> error + inverted_lists" where
  "add_batch np self start_idx d =
     (let num_vectors = length (vectors self);
          subspace1 = map (take (subspace_dim self)) (vectors self);
          subspace2 = map (drop (subspace_dim self)) (vectors self);
          end_idx = min (start_idx + batch_size) num_vectors;
          batch_subspace1 = slice start_idx end_idx subspace1;
          batch_subspace2 = slice start_idx end_idx subspace2
      in case (centroids1 self, centroids2 self) of
           (Some c1, Some c2) \<Rightarrow>
             (case map_err np_argmin (cdist np batch_subspace1 c1) of
                Inl e \<Rightarrow> Inl e
              | Inr assignments1 \<Rightarrow>
                  (case map_err np_argmin (cdist np batch_subspace2 c2) of
                     Inl e \<Rightarrow> Inl e
                   | Inr assignments2 \<Rightarrow>
                       (let z = zip assignments1 assignments2
                        in assign_batch d (zip [start_idx..<start_idx + length z] z))))
         | _ \<Rightarrow> Inl ValueError)"

fun add_loop ::
  "'f::linorder numlib \<Rightarrow> 'f IMIIndex \<Rightarrow> nat list \<Rightarrow> inverted_lists \<Rightarrow> error + inverted_lists" where
  "add_loop np self [] d = Inr d"
| "add_loop np self (start_idx # rest) d =
     (case add_batch np self start_idx d of
        Inl e \<Rightarrow> Inl e
      | Inr d' \<Rightarrow> add_loop np self rest d')"

definition add :: "'f::linorder numlib \<Rightarrow> 'f IMIIndex \<Rightarrow> error + 'f IMIIndex" where
  "add np self =
     (case add_loop np self (range_step (length (vectors self)) batch_size)
             (index_inverted_lists self) of
        Inl e \<Rightarrow> Inl e
      | Inr d \<Rightarrow> Inr (self \<lparr> index_inverted_lists := d \<rparr>))"

subsection \<open>\<^verbatim>\<open>build_index\<close>\<close>

text \<open>The file system: the content of every path that exists.\<close>

type_synonym filesystem = "string \<Rightarrow> string option"

text \<open>\<^verbatim>\<open>os.path.exists\<close> raises \<^verbatim>\<open>TypeError\<close> on \<^verbatim>\<open>None\<close>, which is the default
  of the constructor's \<^verbatim>\<open>index_path\<close>.\<close>

definition path_exists :: "filesystem \<Rightarrow> string option \<Rightarrow> error + bool" where
  "path_exists fs path = (case path of None \<Rightarrow> Inl TypeError | Some p \<Rightarrow> Inr (fs p \<noteq> None))"

text \<open>Both branches return \<^verbatim>\<open>self\<close>; the calls of \<^verbatim>\<open>train\<close>, \<^verbatim>\<open>add\<close> and
  \<^verbatim>\<open>save_index\<close> come after the second \<^verbatim>\<open>return\<close> and are never reached.\<close>

definition build_index :: "'f IMIIndex \<Rightarrow> filesystem \<Rightarrow> error + ('f IMIIndex \<times> filesystem)" where
  "build_index self fs =
     (let nq = length (vectors self)
      in case path_exists fs (index_path self) of
           Inl e \<Rightarrow> Inl e
         | Inr found \<Rightarrow> if found then Inr (self, fs) else Inr (self, fs))"

subsection \<open>\<^verbatim>\<open>restructure_pickle\<close>\<close>

text \<open>The unpickled dictionary that \<^verbatim>\<open>save_index\<close> wrote.\<close>

record 'f pickle_data =
  data_centroids1 :: "'f list list option"
  data_centroids2 :: "'f list list option"
  data_index_inverted_lists :: inverted_lists

text \<open>The three files of the restructured index, each as the array that numpy writes to
  it or reads from it: the offsets are the rows of an \<^verbatim>\<open>int32\<close> array of shape
  \<open>(n, 2)\<close>, the values an \<^verbatim>\<open>int32\<close> array.\<close>

record 'f index_files =
  centroids_pkl :: "'f list list option \<times> 'f list list option"
  index_offsets_bin :: "(int \<times> int) list"
  concatenated_values_bin :: "int list"

definition int32_max :: int where
  "int32_max = 2147483647"

text \<open>Storing a Python integer in an \<^verbatim>\<open>int32\<close> array: out of range raises.\<close>

definition to_int32 :: "nat \<Rightarrow> error + int" where
  "to_int32 n = (if int n \<le> int32_max then Inr (int n) else Inl OverflowError)"

text \<open>The loop over \<^verbatim>\<open>data["index_inverted_lists"].items()\<close>.\<close>

fun restructure_loop ::
  "inverted_lists \<Rightarrow> nat list \<Rightarrow> (int \<times> int) list \<Rightarrow> error + (nat list \<times> (int \<times> int) list)" where
  "restructure_loop [] concatenated_values index_offsets = Inr (concatenated_values, index_offsets)"
| "restructure_loop ((key, val) # rest) concatenated_values index_offsets =
     (let start = length concatenated_values;
          len = length val;
          concatenated_values' = concatenated_values @ val;
          index = fst key * 256 + snd key
      in if index < length index_offsets then
           (case (to_int32 start, to_int32 len) of
              (Inr s, Inr l) \<Rightarrow>
                restructure_loop rest concatenated_values' (index_offsets[index := (s, l)])
            | _ \<Rightarrow> Inl OverflowError)
         else Inl IndexError)"

definition restructure_pickle :: "'f pickle_data \<Rightarrow> error + 'f index_files" where
  "restructure_pickle data =
     (case restructure_loop (data_index_inverted_lists data) [] (replicate (256 * 256) (0, 0)) of
        Inl e \<Rightarrow> Inl e
      | Inr (concatenated_values, index_offsets) \<Rightarrow>
          (case map_err to_int32 concatenated_values of
             Inl e \<Rightarrow> Inl e
           | Inr vals \<Rightarrow>
               Inr \<lparr> centroids_pkl = (data_centroids1 data, data_centroids2 data),
                     index_offsets_bin = index_offsets,
                     concatenated_values_bin = vals \<rparr>))"

text \<open>The bytes of \<^verbatim>\<open>tofile\<close> for an \<^verbatim>\<open>int32\<close> array on a little-endian machine: four
  bytes per element, least significant first, negative values in two's complement.\<close>

definition le_bytes32 :: "int \<Rightarrow> nat list" where
  "le_bytes32 v = map (\<lambda>k. nat ((v mod 2 ^ 32) div 256 ^ k mod 256)) [0..<4]"

definition tofile_int32 :: "int list \<Rightarrow> nat list" where
  "tofile_int32 a = concat (map le_bytes32 a)"

definition tofile_offsets :: "(int \<times> int) list \<Rightarrow> nat list" where
  "tofile_offsets a = concat (map (\<lambda>(s, l). le_bytes32 s @ le_bytes32 l) a)"

subsection \<open>\<^verbatim>\<open>load_index_inverted_lists\<close>\<close>

text \<open>One key of the loop. The record of the pair is \<open>key[0] * 256 + key[1]\<close>. A
  window that does not lie inside the value file makes \<^verbatim>\<open>np.memmap\<close> raise.\<close>

definition load_key :: "'f index_files \<Rightarrow> nat \<times> nat \<Rightarrow> error + int list" where
  "load_key files key =
     (let index = fst key * 256 + snd key
      in if index < length (index_offsets_bin files) then
           (let (start, len) = index_offsets_bin files ! index
            in if len > 0 then
                 (if 0 \<le> start \<and> start + len \<le> int (length (concatenated_values_bin files))
                  then Inr (slice (nat start) (nat (start + len)) (concatenated_values_bin files))
                  else Inl ValueError)
               else Inr [])
         else Inl IndexError)"

fun load_loop ::
  "'f index_files \<Rightarrow> (nat \<times> nat) list \<Rightarrow> ((nat \<times> nat) \<times> int list) list
     \<Rightarrow> error + ((nat \<times> nat) \<times> int list) list" where
  "load_loop files [] inverted = Inr inverted"
| "load_loop files (key # keys) inverted =
     (case load_key files key of
        Inl e \<Rightarrow> Inl e
      | Inr l \<Rightarrow> load_loop files keys (AList.update key l inverted))"

definition load_index_inverted_lists ::
  "'f index_files \<Rightarrow> (nat \<times> nat) list \<Rightarrow> error + ((nat \<times> nat) \<times> int list) list" where
  "load_index_inverted_lists files keys = load_loop files keys []"

subsection \<open>\<^verbatim>\<open>search\<close>\<close>

text \<open>Sequencing of steps that may raise.\<close>

definition bind_err :: "error + 'b \<Rightarrow> ('b \<Rightarrow> error + 'c) \<Rightarrow> error + 'c" where
  "bind_err m f = (case m of Inl e \<Rightarrow> Inl e | Inr x \<Rightarrow> f x)"

text \<open>The vector store is used through one method only.\<close>

record 'f vec_db =
  get_sequential_block :: "int \<Rightarrow> int \<Rightarrow> 'f list list"

text \<open>Indexing with integers that may be negative (numpy counts those from the end).\<close>

definition np_index :: "'b list \<Rightarrow> int \<Rightarrow> error + 'b" where
  "np_index xs i =
     (let n = int (length xs); j = (if i < 0 then i + n else i)
      in if 0 \<le> j \<and> j < n then Inr (xs ! nat j) else Inl IndexError)"

text \<open>The nested generator \<^verbatim>\<open>batch_numbers\<close>; the list is what it yields, in order.\<close>

function batch_loop :: "int list \<Rightarrow> int \<Rightarrow> int \<Rightarrow> nat \<Rightarrow> int \<Rightarrow> int list list" where
  "batch_loop numbers max_difference batch_limit start_index batch_count =
     (if start_index < length numbers \<and> batch_count < batch_limit then
        (let min_element = numbers ! start_index;
             end_index = min (searchsorted_right numbers (min_element + max_difference))
                             (length numbers)
         in slice start_index end_index numbers
            # batch_loop numbers max_difference batch_limit end_index (batch_count + 1))
      else [])"
  by pat_completeness auto
termination
  by (relation "measure (\<lambda>(numbers, max_difference, batch_limit, start_index, batch_count).
                  nat (batch_limit - batch_count))") auto

declare batch_loop.simps [simp del]

definition batch_numbers :: "int list \<Rightarrow> int \<Rightarrow> int \<Rightarrow> int list list" where
  "batch_numbers numbers max_difference batch_limit =
     batch_loop numbers max_difference batch_limit 0 0"

text \<open>Selecting the \<open>k\<close> smallest entries of \<open>a\<close> in ascending order, as the code does
  three times: \<^verbatim>\<open>t = np.argpartition(a, k)[:k]; t = t[np.argsort(a[t])]\<close>.\<close>

definition top_sorted :: "('f::linorder) numlib \<Rightarrow> 'f list \<Rightarrow> int \<Rightarrow> error + nat list" where
  "top_sorted np a k =
     bind_err (np_argpartition np a k) (\<lambda>part.
       let top_indices = slice_to k part
       in bind_err (fancy_index a top_indices) (\<lambda>vals.
            fancy_index top_indices (argsort np vals)))"

text \<open>The nested function \<^verbatim>\<open>process_batch\<close>; \<open>query16\<close> is the query after
  \<^verbatim>\<open>astype(np.float16)\<close>.\<close>

definition process_batch ::
  "('f::linorder) numlib \<Rightarrow> 'f vec_db \<Rightarrow> 'f list \<Rightarrow> int \<Rightarrow> int list \<Rightarrow> error + ('f \<times> int) list" where
  "process_batch np db query16 top_k batch =
     (if batch = [] then Inl IndexError
      else
        (let start_index = hd batch;
             end_index = last batch;
             block_data = get_sequential_block db start_index (end_index + 1);
             relevant_indices = map (\<lambda>b. b - start_index) batch
         in bind_err (map_err (np_index block_data) relevant_indices) (\<lambda>rows.
              let block16 = map (map (float16 np)) rows;
                  distances = map (float16 np) (concat (cdist np [query16] block16))
              in if int (length distances) \<le> top_k then Inr (zip distances batch)
                 else bind_err (top_sorted np distances top_k) (\<lambda>top_indices.
                        bind_err (fancy_index distances top_indices) (\<lambda>ds.
                          bind_err (fancy_index batch top_indices) (\<lambda>ids.
                            Inr (zip ds ids)))))))"

text \<open>\<^verbatim>\<open>np.indices((256, 256)).reshape(2, -1).T\<close>: row \<open>k\<close> is \<open>(k div 256, k mod 256)\<close>.\<close>

definition centroid_pairs :: "(nat \<times> nat) list" where
  "centroid_pairs = map (\<lambda>k. (k div 256, k mod 256)) [0..<256 * 256]"

text \<open>The outer sum \<^verbatim>\<open>d1[:, None] + d2[None, :]\<close>, then \<^verbatim>\<open>ravel()\<close>.\<close>

definition combined_distances_flat :: "('f::plus) list \<Rightarrow> 'f list \<Rightarrow> 'f list" where
  "combined_distances_flat d1 d2 = concat (map (\<lambda>a. map (\<lambda>b. a + b) d2) d1)"

text \<open>The planner: lines 126 to 149, from the split of the query to \<^verbatim>\<open>cluster_pairs\<close>.\<close>

definition query_planner ::
  "('f::{linorder,plus}) numlib \<Rightarrow> 'f IMIIndex \<Rightarrow> 'f list list \<Rightarrow> 'f list list \<Rightarrow> 'f list \<Rightarrow> int
     \<Rightarrow> error + (nat \<times> nat) list" where
  "query_planner np self c1 c2 query16 nprobe =
     (let query_subspace1 = take (subspace_dim self) query16;
          query_subspace2 = drop (subspace_dim self) query16;
          subspace1_distances = concat (cdist np [query_subspace1] c1);
          subspace2_distances = concat (cdist np [query_subspace2] c2);
          flat = combined_distances_flat subspace1_distances subspace2_distances
      in bind_err (top_sorted np flat (nprobe * nprobe)) (\<lambda>top_indices.
           fancy_index centroid_pairs top_indices))"

text \<open>One row of \<^verbatim>\<open>representative_vectors\<close>, an array of \<^verbatim>\<open>float16\<close> with
  \<^verbatim>\<open>self.dimension\<close> columns: a row of another length does not fit, except that a
  single value is broadcast.\<close>

definition representative_vector ::
  "'f numlib \<Rightarrow> 'f IMIIndex \<Rightarrow> 'f list list \<Rightarrow> 'f list list \<Rightarrow> nat \<times> nat \<Rightarrow> error + 'f list" where
  "representative_vector np self c1 c2 pair =
     (if fst pair < length c1 \<and> snd pair < length c2 then
        (let r = c1 ! fst pair @ c2 ! snd pair
         in if length r = dimension self then Inr (map (float16 np) r)
            else if length r = 1 then Inr (replicate (dimension self) (float16 np (hd r)))
            else Inl ValueError)
      else Inl IndexError)"

text \<open>The pruner: lines 155 to 170.\<close>

definition representative_pruner ::
  "('f::linorder) numlib \<Rightarrow> 'f IMIIndex \<Rightarrow> 'f list list \<Rightarrow> 'f list list \<Rightarrow> 'f list
     \<Rightarrow> (nat \<times> nat) list \<Rightarrow> int \<Rightarrow> error + (nat \<times> nat) list" where
  "representative_pruner np self c1 c2 query16 cluster_pairs pruning_factor =
     bind_err (map_err (representative_vector np self c1 c2) cluster_pairs)
       (\<lambda>representative_vectors.
         let rep_distances = concat (cdist np [query16] representative_vectors);
             keep_count = min pruning_factor (int (length cluster_pairs)) - 1
         in bind_err (top_sorted np rep_distances keep_count) (\<lambda>kept_indices.
              fancy_index cluster_pairs kept_indices))"

text \<open>The assembler: lines 174 to 185.\<close>

definition candidate_assembler ::
  "'f index_files \<Rightarrow> (nat \<times> nat) list \<Rightarrow> error + int list" where
  "candidate_assembler files pruned_cluster_pairs =
     bind_err (load_index_inverted_lists files pruned_cluster_pairs) (\<lambda>inverted.
       Inr (sort (concat (map (\<lambda>pair. case map_of inverted pair of
                                          None \<Rightarrow> [] | Some l \<Rightarrow> l)
                              pruned_cluster_pairs))))"

text \<open>The worker pool: every batch is submitted, and \<^verbatim>\<open>as_completed\<close> hands the futures
  back in the order they finish, which is \<open>order\<close>, a permutation of their positions.
  \<^verbatim>\<open>future.result()\<close> raises what the batch raised.\<close>

definition as_completed :: "nat list \<Rightarrow> 'b list \<Rightarrow> 'b list" where
  "as_completed order futures = map (\<lambda>i. futures ! i) order"

definition global_merger :: "int \<Rightarrow> (('f::linorder) \<times> int) list \<Rightarrow> 'f list \<times> int list" where
  "global_merger top_k all_candidates =
     (let top_k_global = nsmallest top_k fst all_candidates
      in (map fst top_k_global, map snd top_k_global))"

text \<open>Lines 189 to 194: the pairs of all batches, in the order the batches complete.\<close>

definition collect_batches ::
  "('f::linorder) numlib \<Rightarrow> 'f vec_db \<Rightarrow> 'f list \<Rightarrow> int \<Rightarrow> int list list \<Rightarrow> nat list
     \<Rightarrow> error + ('f \<times> int) list" where
  "collect_batches np db query16 top_k batches order =
     bind_err (map_err (\<lambda>r. r) (as_completed order (map (process_batch np db query16 top_k) batches)))
       (\<lambda>results. Inr (concat results))"

definition score_batches ::
  "('f::linorder) numlib \<Rightarrow> 'f vec_db \<Rightarrow> 'f list \<Rightarrow> int \<Rightarrow> int list list \<Rightarrow> nat list
     \<Rightarrow> error + ('f list \<times> int list)" where
  "score_batches np db query16 top_k batches order =
     bind_err (collect_batches np db query16 top_k batches order)
       (\<lambda>all_candidates. Inr (global_merger top_k all_candidates))"

text \<open>Lines 119 to 187 of \<open>search\<close>: from the query to the batches of candidate ids.\<close>

definition candidate_batches ::
  "('f::{linorder,plus}) numlib \<Rightarrow> 'f IMIIndex \<Rightarrow> 'f index_files \<Rightarrow> 'f list
     \<Rightarrow> int \<Rightarrow> int \<Rightarrow> int \<Rightarrow> int \<Rightarrow> error + int list list" where
  "candidate_batches np self files query_vector nprobe max_difference batch_limit pruning_factor =
     (let query16 = map (float16 np) query_vector
      in case centroids_pkl files of
           (Some c1, Some c2) \<Rightarrow>
             bind_err (query_planner np self c1 c2 query16 nprobe) (\<lambda>cluster_pairs.
               bind_err (representative_pruner np self c1 c2 query16 cluster_pairs pruning_factor)
                 (\<lambda>pruned_cluster_pairs.
                   bind_err (candidate_assembler files pruned_cluster_pairs) (\<lambda>candidate_vectors.
                     Inr (batch_numbers candidate_vectors max_difference batch_limit))))
         | _ \<Rightarrow> Inl ValueError)"

text \<open>The whole of \<open>search\<close>; \<open>order\<close> is the order in which the batches complete.\<close>

definition search ::
  "('f::{linorder,plus}) numlib \<Rightarrow> 'f IMIIndex \<Rightarrow> 'f vec_db \<Rightarrow> 'f index_files \<Rightarrow> 'f list
     \<Rightarrow> int \<Rightarrow> int \<Rightarrow> int \<Rightarrow> int \<Rightarrow> int \<Rightarrow> nat list \<Rightarrow> error + ('f list \<times> int list)" where
  "search np self db files query_vector top_k nprobe max_difference batch_limit pruning_factor order =
     bind_err (candidate_batches np self files query_vector nprobe max_difference batch_limit
                 pruning_factor)
       (\<lambda>batches. score_batches np db (map (float16 np) query_vector) top_k batches order)"

subsection \<open>The batching policy, in the words of the specification\<close>

text \<open>
  Section 4.6: starting at the first id, the next batch is the maximal prefix of the
  remaining tail whose id span is at most \<open>max_difference\<close>; at most \<open>batch_limit\<close>
  batches are emitted (the second argument counts the batches that may still be emitted)
  and the remaining ids are dropped. A span of at most \<open>max_difference\<close> is
  \<open>y - x \<le> max_difference\<close> for the first id \<open>x\<close> of the batch.
\<close>

fun batching_policy :: "int \<Rightarrow> nat \<Rightarrow> int list \<Rightarrow> int list list" where
  "batching_policy md 0 S = []"
| "batching_policy md (Suc n) [] = []"
| "batching_policy md (Suc n) (x # xs) =
     takeWhile (\<lambda>y. y \<le> x + md) (x # xs)
     # batching_policy md n (dropWhile (\<lambda>y. y \<le> x + md) (x # xs))"

subsection \<open>The specification's quantities\<close>

text \<open>Section 4.3: \<open>D[i, j] = cosine(q1, centroid1[i]) + cosine(q2, centroid2[j])\<close>.\<close>

definition combined_distance ::
  "('f::plus) numlib \<Rightarrow> 'f list list \<Rightarrow> 'f list list \<Rightarrow> 'f list \<Rightarrow> 'f list \<Rightarrow> nat \<times> nat \<Rightarrow> 'f" where
  "combined_distance np c1 c2 q1 q2 pair =
     cosine np q1 (c1 ! fst pair) + cosine np q2 (c2 ! snd pair)"

text \<open>Section 4.4: the distance of the query to the representative vector
  \<open>concat(centroid1[i], centroid2[j])\<close>, which the code holds in half precision.\<close>

definition representative_distance ::
  "'f numlib \<Rightarrow> 'f list list \<Rightarrow> 'f list list \<Rightarrow> 'f list \<Rightarrow> nat \<times> nat \<Rightarrow> 'f" where
  "representative_distance np c1 c2 query16 pair =
     cosine np query16 (map (float16 np) (c1 ! fst pair @ c2 ! snd pair))"

text \<open>Section 3: the pair \<open>(i, j)\<close> of an index with \<open>C\<close> centroids a side has the
  scalar key \<open>i * C + j\<close>, which is the number of its record in the offset table.\<close>

definition spec_record :: "nat \<Rightarrow> nat \<times> nat \<Rightarrow> nat" where
  "spec_record C pair = fst pair * C + snd pair"

text \<open>Section 3: a centroid is the assignment of a vector when it is nearest, ties
  broken by the lowest centroid index; \<open>ds\<close> holds the distances of the vector's half
  to the centroids of one side.\<close>

definition nearest :: "('f::linorder) list \<Rightarrow> nat \<Rightarrow> bool" where
  "nearest ds a \<longleftrightarrow>
     a < length ds \<and> list_all (\<lambda>j. ds ! a \<le> ds ! j) [0..<length ds] \<and>
     list_all (\<lambda>j. ds ! a < ds ! j) [0..<a]"

text \<open>Sections 3 and 4.5: the window of record \<open>k\<close> of the offset table, the ids
  \<open>[start, start + length)\<close> of the id run; and the window of a pair of an index of \<open>C\<close>
  centroids a side, which is that of the record the specification gives the pair.\<close>

definition record_window :: "'f index_files \<Rightarrow> nat \<Rightarrow> int list" where
  "record_window files k =
     (let (start, len) = index_offsets_bin files ! k
      in if len > 0 then slice (nat start) (nat (start + len)) (concatenated_values_bin files)
         else [])"

definition spec_offset_lookup :: "nat \<Rightarrow> 'f index_files \<Rightarrow> nat \<times> nat \<Rightarrow> int list" where
  "spec_offset_lookup C files pair = record_window files (spec_record C pair)"

text \<open>Sections 4.2 and 6: the offset table of the lists taken in key order. The first
  list starts at 0 and \<open>start[k + 1] = start[k] + length[k]\<close>.\<close>

fun spec_offset_table :: "nat \<Rightarrow> nat list list \<Rightarrow> (nat \<times> nat) list" where
  "spec_offset_table start [] = []"
| "spec_offset_table start (l # ls) = (start, length l) # spec_offset_table (start + length l) ls"

text \<open>Section 4.2: a 32-bit little-endian unsigned integer, as its four bytes.\<close>

definition le_unsigned32 :: "nat \<Rightarrow> nat list" where
  "le_unsigned32 n = map (\<lambda>k. n div 256 ^ k mod 256) [0..<4]"

subsection \<open>Two instances of the library\<close>

text \<open>
  For the examples. The scalars are real numbers; \<open>pm_cosine\<close> is the cosine distance of
  two vectors whose entries are 1 or -1 (their norm is the root of their length);
  half precision keeps such values; the cluster centres are the first samples;
  \<open>argsort\<close> is a stable sort of the indices. The first instance partitions by the same
  stable sort. The second sorts the indices taken from the last to the first, so that
  equal entries come out with the larger index first: also a partition as numpy
  documents it.
\<close>

definition pm_cosine :: "real list \<Rightarrow> real list \<Rightarrow> real" where
  "pm_cosine u v = 1 - sum_list (map2 (\<lambda>x y. x * y) u v) / real (length u)"

definition stable_argsort :: "('f::linorder) list \<Rightarrow> nat list" where
  "stable_argsort a = sort_key (\<lambda>i. a ! i) [0..<length a]"


definition ref_np :: "real numlib" where
  "ref_np = \<lparr> cosine = pm_cosine, float16 = (\<lambda>x. x),
              argpartition = (\<lambda>a kth. stable_argsort a), argsort = stable_argsort,
              kmeans = (\<lambda>k X. take k X) \<rparr>"


subsection \<open>An example index\<close>

text \<open>
  Vectors of dimension 2, so that each subspace has dimension 1; 256 centroids a side,
  every one of them \<open>[1]\<close>; an offset table of 65536 records
  in which only the pair \<open>(0, 0)\<close> has a list, the ids 3 and 20004; and a vector store
  in which every vector is \<open>[1, 1]\<close>.
\<close>

definition ex_centroids :: "real list list" where
  "ex_centroids = replicate 256 [1]"

definition ex_index :: "real IMIIndex" where
  "ex_index = \<lparr> nlist = 256, dimension = 2, subspace_dim = 1, vectors = [],
                centroids1 = None, centroids2 = None, index_inverted_lists = [],
                index_path = None \<rparr>"

definition ex_files :: "real index_files" where
  "ex_files = \<lparr> centroids_pkl = (Some ex_centroids, Some ex_centroids),
                index_offsets_bin = (0, 2) # replicate 65535 (0, 0),
                concatenated_values_bin = [3, 20004] \<rparr>"

definition ex_db :: "real vec_db" where
  "ex_db = \<lparr> get_sequential_block = (\<lambda>s e. replicate (nat (e - s)) [1, 1]) \<rparr>"

section \<open>Properties\<close>

subsection \<open>The global merger\<close>

lemma nsmallest_length: "length (nsmallest n key xs) = min (nat n) (length xs)"
  by (simp add: nsmallest_def)

lemma nsmallest_sorted: "sorted (map key (nsmallest n key xs))"
  by (simp add: nsmallest_def take_map [symmetric] sorted_wrt_take)

lemma nsmallest_rest:
  "mset xs = mset (nsmallest n key xs) + mset (drop (nat n) (sort_key key xs))"
  by (metis nsmallest_def append_take_drop_id mset_append mset_sort)

lemma nsmallest_le_rest:
  assumes "x \<in> set (nsmallest n key xs)" "y \<in> set (drop (nat n) (sort_key key xs))"
  shows "key x \<le> key y"
proof -
  have "sorted (map key (take (nat n) (sort_key key xs) @ drop (nat n) (sort_key key xs)))"
    by simp
  then show ?thesis using assms unfolding nsmallest_def map_append sorted_append by auto
qed

lemma nsmallest_stable:
  "prefix (filter (\<lambda>y. key y = k) (nsmallest n key xs)) (filter (\<lambda>y. key y = k) xs)"
proof -
  have "prefix (filter (\<lambda>y. key y = k) (take (nat n) (sort_key key xs)))
               (filter (\<lambda>y. key y = k) (sort_key key xs))"
    by (metis append_take_drop_id filter_append prefixI)
  then show ?thesis by (simp add: nsmallest_def sort_key_stable)
qed

text \<open>
  C4, as the code has it. Whatever list of (distance, id) pairs the batches have put into
  \<^verbatim>\<open>all_candidates\<close>, the merger returns two parallel arrays whose length is the
  smaller of \<open>top_k\<close> and the number of candidates; the distances ascend; the returned
  pairs are candidates and no candidate left out is closer than a returned one; and among
  candidates of one distance the merger keeps the order of \<^verbatim>\<open>all_candidates\<close>: the
  returned ones are the first of them, in that order. The id plays no part.
\<close>

theorem global_merger_smallest_stable:
  fixes cands :: "(('f::linorder) \<times> int) list"
  shows "case global_merger top_k cands of (ds, ids) \<Rightarrow>
     length ds = min (nat top_k) (length cands) \<and> length ids = length ds \<and> sorted ds \<and>
     mset (zip ds ids) \<subseteq># mset cands \<and>
     (\<forall>x \<in># mset cands - mset (zip ds ids). \<forall>d \<in> set ds. d \<le> fst x) \<and>
     (\<forall>k. prefix (filter (\<lambda>y. fst y = k) (zip ds ids)) (filter (\<lambda>y. fst y = k) cands))"
proof -
  let ?t = "nsmallest top_k fst cands"
  have z: "zip (map fst ?t) (map snd ?t) = ?t"
    by (simp add: zip_map_fst_snd)
  have rest: "mset cands - mset ?t = mset (drop (nat top_k) (sort_key fst cands))"
    using nsmallest_rest [of cands top_k fst] by simp
  have le: "\<forall>x \<in># mset cands - mset ?t. \<forall>d \<in> set (map fst ?t). d \<le> fst x"
    unfolding rest using nsmallest_le_rest [of _ top_k fst cands] by auto
  have sub: "mset ?t \<subseteq># mset cands"
    using nsmallest_rest [of cands top_k fst] by (metis mset_subset_eq_add_left)
  show ?thesis
    unfolding global_merger_def Let_def prod.case z
    using le sub nsmallest_sorted [of fst top_k cands] nsmallest_stable [of fst _ top_k cands]
    by (simp add: nsmallest_length)
qed

text \<open>
  The theorem of C4 at three candidates and \<open>top_k = 2\<close>: the pair at distance 2 is left
  out, and of the two pairs at distance 1 the one collected first, with id 9, comes first.
\<close>

theorem global_merger_smallest_stable_witness:
  "global_merger 2 [(2::real, 7), (1, 9), (1, 4)] = ([1, 1], [9, 4]) \<and>
   (2::real, 7::int) \<in># mset [(2, 7), (1, 9), (1, 4)] - mset (zip [1, 1] [9, 4]) \<and>
   list_all (\<lambda>d. d \<le> fst (2::real, 7::int)) [1, 1] \<and>
   prefix (filter (\<lambda>y. fst y = 1) (zip [1::real, 1] [9::int, 4]))
          (filter (\<lambda>y. fst y = 1) [(2, 7), (1, 9), (1, 4)])"
  using global_merger_smallest_stable [of 2 "[(2::real, 7), (1, 9), (1, 4)]"]
  by (simp add: global_merger_def nsmallest_def)

text \<open>
  C4 as stated fails. Two candidates at the same distance 5, id 9 collected before id 3:
  with \<open>top_k = 1\<close> the merger returns id 9, not the smaller id 3; with \<open>top_k = 3\<close> the
  arrays have length 2, not 3.
\<close>

theorem global_merger_counterexample:
  "global_merger 1 [(5::real, 9), (5, 3)] = ([5], [9]) \<and>
   length (snd (global_merger 3 [(5::real, 9), (5, 3)])) = 2"
  by (simp add: global_merger_def nsmallest_def)

subsection \<open>Batching\<close>

lemma sorted_filter_le_takeWhile:
  "sorted xs \<Longrightarrow> filter (\<lambda>x. x \<le> (v::int)) xs = takeWhile (\<lambda>x. x \<le> v) xs"
proof (induction xs)
  case Nil
  then show ?case by simp
next
  case (Cons a xs)
  show ?case
  proof (cases "a \<le> v")
    case True
    then show ?thesis using Cons by simp
  next
    case False
    then have "\<forall>x \<in> set xs. \<not> x \<le> v" using Cons.prems by auto
    then have "filter (\<lambda>x. x \<le> v) xs = []" by (simp add: filter_empty_conv)
    then show ?thesis using False by simp
  qed
qed

lemma batch_loop_policy:
  "sorted S \<Longrightarrow> 0 \<le> md \<Longrightarrow> start \<le> length S \<Longrightarrow>
         batch_loop S md bl start cnt = batching_policy md (nat (bl - cnt)) (drop start S)"
proof (induction S md bl start cnt rule: batch_loop.induct)
  case (1 numbers max_difference batch_limit start_index batch_count)
  note srt = \<open>sorted numbers\<close> and md = \<open>0 \<le> max_difference\<close>
  show ?case
  proof (cases "start_index < length numbers \<and> batch_count < batch_limit")
    case False
    then have "start_index = length numbers \<or> nat (batch_limit - batch_count) = 0"
      using 1(4) by auto
    then show ?thesis
      using False
      by (cases "nat (batch_limit - batch_count)") (auto simp: batch_loop.simps [of numbers])
  next
    case True
    define x where "x = numbers ! start_index"
    define P where "P = (\<lambda>y. y \<le> x + max_difference)"
    define e where "e = min (searchsorted_right numbers (x + max_difference)) (length numbers)"
    have dr: "drop start_index numbers = x # drop (Suc start_index) numbers"
      using True by (simp add: x_def Cons_nth_drop_Suc)
    have before: "\<forall>y \<in> set (take start_index numbers). P y"
    proof
      fix y assume "y \<in> set (take start_index numbers)"
      then obtain i where "i < start_index" "y = numbers ! i"
        using True by (auto simp: in_set_conv_nth)
      then have "y \<le> x" using srt True by (simp add: x_def sorted_nth_mono)
      then show "P y" using md by (simp add: P_def)
    qed
    have tw: "takeWhile P numbers = take start_index numbers @ takeWhile P (drop start_index numbers)"
      using takeWhile_append2 [of "take start_index numbers" P "drop start_index numbers"] before
      by simp
    have le: "length (takeWhile P numbers) \<le> length numbers"
      by (rule length_takeWhile_le)
    have ft: "filter P numbers = takeWhile P numbers"
      unfolding P_def by (rule sorted_filter_le_takeWhile [OF srt])
    have e_tw: "e = length (takeWhile P numbers)"
      using le ft by (simp add: e_def searchsorted_right_def P_def)
    have e_eq: "e = start_index + length (takeWhile P (drop start_index numbers))"
      using True unfolding e_tw by (subst tw) simp
    have e_le: "e \<le> length numbers" using le e_tw by simp
    have sl: "slice start_index e numbers = takeWhile P (drop start_index numbers)"
      unfolding slice_def e_eq by (simp add: takeWhile_eq_take [symmetric])
    have dre: "drop e numbers = dropWhile P (drop start_index numbers)"
      unfolding e_eq by (simp add: dropWhile_eq_drop add.commute)
    have fuel: "nat (batch_limit - batch_count) = Suc (nat (batch_limit - (batch_count + 1)))"
      using True by linarith
    have IH: "batch_loop numbers max_difference batch_limit e (batch_count + 1) =
              batching_policy max_difference (nat (batch_limit - (batch_count + 1))) (drop e numbers)"
      using "1.IH" [OF True x_def e_def [unfolded x_def [symmetric]] srt md e_le] .
    show ?thesis
      using True
      apply (subst batch_loop.simps)
      apply (simp only: Let_def x_def [symmetric] e_def [symmetric] if_True IH)
      apply (simp only: fuel dr batching_policy.simps)
      apply (simp only: dr [symmetric] sl dre P_def)
      apply simp
      done
  qed
qed

lemma policy_length: "length (batching_policy md n S) \<le> n"
  by (induction md n S rule: batching_policy.induct) auto

lemma policy_prefix: "prefix (concat (batching_policy md n S)) S"
proof (induction md n S rule: batching_policy.induct)
  case (3 md n x xs)
  let ?P = "\<lambda>y. y \<le> x + md"
  have "prefix (takeWhile ?P (x # xs) @ concat (batching_policy md n (dropWhile ?P (x # xs))))
               (takeWhile ?P (x # xs) @ dropWhile ?P (x # xs))"
    using 3 by (simp only: same_prefix_prefix)
  then show ?case by (simp only: batching_policy.simps concat.simps takeWhile_dropWhile_id)
qed simp_all

lemma policy_complete:
  "length (batching_policy md n S) < n \<Longrightarrow> concat (batching_policy md n S) = S"
proof (induction md n S rule: batching_policy.induct)
  case (3 md n x xs)
  let ?P = "\<lambda>y. y \<le> x + md"
  have "concat (batching_policy md n (dropWhile ?P (x # xs))) = dropWhile ?P (x # xs)"
    using 3 by simp
  then have "concat (batching_policy md (Suc n) (x # xs)) =
             takeWhile ?P (x # xs) @ dropWhile ?P (x # xs)"
    by (simp only: batching_policy.simps concat.simps)
  then show ?case by (simp only: takeWhile_dropWhile_id)
qed simp_all

lemma policy_batches:
  "sorted S \<Longrightarrow> 0 \<le> md \<Longrightarrow> b \<in> set (batching_policy md n S) \<Longrightarrow>
   b \<noteq> [] \<and> (\<forall>y \<in> set b. hd b \<le> y \<and> y \<le> hd b + md)"
proof (induction md n S rule: batching_policy.induct)
  case (3 md n x xs)
  let ?P = "\<lambda>y. y \<le> x + md"
  from 3(4) consider "b = takeWhile ?P (x # xs)"
    | "b \<in> set (batching_policy md n (dropWhile ?P (x # xs)))" by auto
  then show ?case
  proof cases
    case 1
    have b: "b = x # takeWhile ?P xs" using 1 3(3) by simp
    have "\<forall>y \<in> set (takeWhile ?P xs). x \<le> y \<and> y \<le> x + md"
      using 3(2) by (auto dest: set_takeWhileD)
    then show ?thesis using b 3(3) by simp
  next
    case 2
    have "sorted (dropWhile ?P (x # xs))" using 3(2) by (rule sorted_dropWhile)
    then show ?thesis using 3(1) 3(3) 2 by simp
  qed
qed simp_all

text \<open>
  C5, as the code has it. For a sorted id sequence \<open>S\<close> and a positive
  \<open>max_difference\<close>, the generator yields what the batching policy of the specification
  yields: each batch is the maximal prefix of the remaining tail whose ids \<open>y\<close> satisfy
  \<open>y \<le> x + max_difference\<close>, for the first id \<open>x\<close> of the tail, so a batch covers the
  closed interval from \<open>x\<close> to \<open>x + max_difference\<close> (the search is
  \<^verbatim>\<open>side='right'\<close>). No more than \<open>batch_limit\<close> batches are yielded; the batches
  concatenate to a prefix of \<open>S\<close>, so what is left out is a tail of \<open>S\<close> and no
  exception reports it; and nothing is left out unless the limit was reached.
\<close>

theorem batch_numbers_policy:
  assumes "sorted S" and "0 < max_difference"
  shows "batch_numbers S max_difference batch_limit =
           batching_policy max_difference (nat batch_limit) S \<and>
         length (batch_numbers S max_difference batch_limit) \<le> nat batch_limit \<and>
         prefix (concat (batch_numbers S max_difference batch_limit)) S \<and>
         (length (batch_numbers S max_difference batch_limit) < nat batch_limit \<longrightarrow>
            concat (batch_numbers S max_difference batch_limit) = S) \<and>
         (\<forall>b \<in> set (batch_numbers S max_difference batch_limit).
            b \<noteq> [] \<and> (\<forall>y \<in> set b. hd b \<le> y \<and> y \<le> hd b + max_difference))"
proof -
  have eq: "batch_numbers S max_difference batch_limit =
            batching_policy max_difference (nat batch_limit) S"
    using batch_loop_policy [of S max_difference 0 batch_limit 0] assms
    by (simp add: batch_numbers_def)
  show ?thesis
    unfolding eq
    using policy_length [of max_difference "nat batch_limit" S]
      policy_prefix [of max_difference "nat batch_limit" S]
      policy_complete [of max_difference "nat batch_limit" S]
      policy_batches [of S max_difference _ "nat batch_limit"] assms
    by (intro conjI impI ballI) simp_all
qed

text \<open>The theorem of C5 at six ids, a width of 10 and a limit of two batches: the ids 25
  and 40 are dropped.\<close>

theorem batch_numbers_policy_witness:
  "sorted [0, 3, 10, 11, 25, 40 :: int] \<and> (0::int) < 10 \<and>
   batch_numbers [0, 3, 10, 11, 25, 40] 10 2 = [[0, 3, 10], [11]] \<and>
   batching_policy 10 (nat 2) [0, 3, 10, 11, 25, 40] = [[0, 3, 10], [11]] \<and>
   prefix (concat (batch_numbers [0, 3, 10, 11, 25, 40] 10 2)) [0, 3, 10, 11, 25, 40]"
  using batch_numbers_policy [of "[0, 3, 10, 11, 25, 40]" 10 2]
  by (simp add: batch_numbers_def batch_loop.simps searchsorted_right_def slice_def
      eval_nat_numeral)

text \<open>
  C5 as stated fails on the half-open interval. With the ids 0 and 10 and
  \<open>max_difference = 10\<close> the first batch holds id 10, which is not below \<open>0 + 10\<close>.
\<close>

theorem batch_numbers_counterexample:
  "batch_numbers [0, 10] 10 1 = [[0, 10]] \<and> \<not> (10::int) < 0 + 10"
  by (simp add: batch_numbers_def batch_loop.simps searchsorted_right_def slice_def)

subsection \<open>\<^verbatim>\<open>build_index\<close>\<close>

text \<open>
  C8, as the code has it. For a handle whose \<open>index_path\<close> is a path, and whether or not
  a file exists at that path, \<open>build_index\<close> returns the handle itself and leaves the
  file system as it was: no field of the handle changes, so neither \<open>train\<close> nor
  \<open>add\<close> has run, and no file is written.
\<close>

theorem build_index_returns_self:
  "index_path self = Some p \<Longrightarrow> build_index self fs = Inr (self, fs)"
  by (simp add: build_index_def path_exists_def)

text \<open>The theorem of C8 at a fresh handle over two vectors and an empty file system.\<close>

theorem build_index_returns_self_witness:
  "index_path \<lparr> nlist = 256, dimension = 2, subspace_dim = 1, vectors = [[1, 0], [0, 1::real]],
       centroids1 = None, centroids2 = None, index_inverted_lists = [],
       index_path = Some ''index.dat'' \<rparr> = Some ''index.dat'' \<and>
   build_index \<lparr> nlist = 256, dimension = 2, subspace_dim = 1, vectors = [[1, 0], [0, 1::real]],
       centroids1 = None, centroids2 = None, index_inverted_lists = [],
       index_path = Some ''index.dat'' \<rparr> (\<lambda>p. None) =
     Inr (\<lparr> nlist = 256, dimension = 2, subspace_dim = 1, vectors = [[1, 0], [0, 1::real]],
       centroids1 = None, centroids2 = None, index_inverted_lists = [],
       index_path = Some ''index.dat'' \<rparr>, \<lambda>p. None)"
  using build_index_returns_self [of "\<lparr> nlist = 256, dimension = 2, subspace_dim = 1,
       vectors = [[1, 0], [0, 1::real]], centroids1 = None, centroids2 = None,
       index_inverted_lists = [], index_path = Some ''index.dat'' \<rparr>" "''index.dat''" "\<lambda>p. None"]
  by simp

text \<open>
  C8 as stated fails for the handle the constructor makes when no \<open>index_path\<close> is
  given: its \<open>index_path\<close> is \<^verbatim>\<open>None\<close>, \<^verbatim>\<open>os.path.exists(None)\<close> raises
  \<^verbatim>\<open>TypeError\<close>, and \<open>build_index\<close> returns nothing.
\<close>

theorem build_index_counterexample:
  "init [[1, 0], [0, 1::real]] 256 2 None =
     Inr \<lparr> nlist = 256, dimension = 2, subspace_dim = 1, vectors = [[1, 0], [0, 1]],
       centroids1 = None, centroids2 = None, index_inverted_lists = [], index_path = None \<rparr> \<and>
   build_index \<lparr> nlist = 256, dimension = 2, subspace_dim = 1, vectors = [[1, 0], [0, 1::real]],
       centroids1 = None, centroids2 = None, index_inverted_lists = [], index_path = None \<rparr>
     (\<lambda>p. None) = Inl TypeError"
  by (simp add: init_def build_index_def path_exists_def)

subsection \<open>Selecting the smallest entries\<close>

lemma perm_upt_facts:
  assumes "mset p = mset [0..<n]"
  shows "length p = n" "distinct p" "set p = {0..<n}"
proof -
  show "length p = n" using assms by (metis length_upt mset_eq_length minus_nat.diff_0)
  show "distinct p" using assms by (metis distinct_upt mset_eq_imp_distinct_iff)
  show "set p = {0..<n}" using assms by (metis mset_eq_setD set_upt)
qed

lemma fancy_index_Inr:
  "\<forall>i \<in> set idx. i < length xs \<Longrightarrow> fancy_index xs idx = Inr (map (\<lambda>i. xs ! i) idx)"
  by (simp add: fancy_index_def list_all_iff)

lemma top_sorted_spec:
  fixes a :: "('f::linorder) list"
  assumes ap: "argpartition_contract (argpartition np)"
    and srt: "argsort_contract (argsort np)"
    and k0: "0 \<le> k" and kn: "nat k < length a"
  shows "\<exists>t. top_sorted np a k = Inr t \<and> length t = nat k \<and> distinct t \<and>
             set t \<subseteq> {0..<length a} \<and> sorted (map (\<lambda>i. a ! i) t) \<and>
             (\<forall>i < length a. i \<notin> set t \<longrightarrow> (\<forall>j \<in> set t. a ! j \<le> a ! i))"
proof -
  define n where "n = length a"
  define m where "m = nat k"
  define p where "p = argpartition np a m"
  define top where "top = take m p"
  define vals where "vals = map (\<lambda>i. a ! i) top"
  define s where "s = argsort np vals"
  define t where "t = map (\<lambda>i. top ! i) s"
  have ok: "argpartition_ok a m p"
    using ap kn by (simp add: argpartition_contract_def p_def m_def)
  then have pm: "mset p = mset [0..<n]" by (simp add: argpartition_ok_def n_def)
  note pf = perm_upt_facts [OF pm]
  have mn: "m < n" using kn by (simp add: m_def n_def)
  have ltop: "length top = m" using pf(1) mn by (simp add: top_def)
  have settop: "set top \<subseteq> {0..<n}" using pf(3) by (auto simp: top_def dest: in_set_takeD)
  have dtop: "distinct top" using pf(2) by (simp add: top_def)
  have s_ok: "argsort_ok vals s" using srt by (simp add: argsort_contract_def s_def)
  then have sm: "mset s = mset [0..<m]" and ss: "sorted (map (\<lambda>i. vals ! i) s)"
    by (simp_all add: argsort_ok_def vals_def ltop)
  note sf = perm_upt_facts [OF sm]
  have e1: "np_argpartition np a k = Inr p"
    using k0 kn by (simp add: np_argpartition_def Let_def p_def m_def)
  have e2: "slice_to k p = top" using k0 by (simp add: slice_to_def top_def m_def)
  have e3: "fancy_index a top = Inr vals"
    unfolding vals_def using settop by (intro fancy_index_Inr) (auto simp: n_def)
  have e4: "fancy_index top s = Inr t"
    unfolding t_def using sf(3) ltop by (intro fancy_index_Inr) auto
  have res: "top_sorted np a k = Inr t"
    by (simp add: top_sorted_def bind_err_def e1 e2 e3 e4 s_def [symmetric])
  have mn': "map (\<lambda>i. top ! i) [0..<m] = top"
    using map_nth [of top] ltop by simp
  have tm: "mset t = mset top"
  proof -
    have "mset t = image_mset (\<lambda>i. top ! i) (mset s)" by (simp add: t_def)
    also have "\<dots> = mset (map (\<lambda>i. top ! i) [0..<m])" by (simp add: sm)
    also have "\<dots> = mset top" by (simp only: mn')
    finally show ?thesis .
  qed
  have sett: "set t = set top" using tm by (rule mset_eq_setD)
  have lt: "length t = m" using tm ltop by (metis mset_eq_length)
  have dt: "distinct t" using tm dtop by (metis mset_eq_imp_distinct_iff)
  have "map (\<lambda>i. a ! i) t = map (\<lambda>i. vals ! i) s"
    using sf(3) ltop by (auto simp: t_def vals_def)
  then have st: "sorted (map (\<lambda>i. a ! i) t)" using ss by simp
  have rest: "a ! j \<le> a ! i" if "i < n" "i \<notin> set t" "j \<in> set t" for i j
  proof -
    from that(3) obtain jj where jj: "jj < m" "j = p ! jj"
      using ltop pf(1) mn by (auto simp: sett top_def in_set_conv_nth)
    from that(1) have "i \<in> set p" using pf(3) by simp
    then obtain ii where ii: "ii < n" "i = p ! ii" using pf(1) by (auto simp: in_set_conv_nth)
    have "\<not> ii < m"
    proof
      assume "ii < m"
      then have "i \<in> set top" using ii pf(1) mn by (auto simp: top_def in_set_conv_nth)
      then show False using that(2) sett by simp
    qed
    then have "a ! (p ! m) \<le> a ! (p ! ii)"
      using ok ii(1) by (cases "ii = m") (auto simp: argpartition_ok_def n_def)
    moreover have "a ! (p ! jj) \<le> a ! (p ! m)"
      using ok jj(1) by (auto simp: argpartition_ok_def)
    ultimately show ?thesis using ii jj by simp
  qed
  show ?thesis
    using res lt dt settop st rest unfolding sett [symmetric] m_def n_def by blast
qed

lemma map_err_Inr:
  "\<forall>x \<in> set xs. f x = Inr (g x) \<Longrightarrow> map_err f xs = Inr (map g xs)"
  by (induction xs) auto

lemma sorted_perm_argpartition_ok:
  fixes a :: "('f::linorder) list"
  assumes "mset p = mset [0..<length a]" "sorted (map (\<lambda>i. a ! i) p)" "kth < length a"
  shows "argpartition_ok a kth p"
proof -
  have lp: "length p = length a" using perm_upt_facts(1) [OF assms(1)] .
  have "a ! (p ! i) \<le> a ! (p ! j)" if "i \<le> j" "j < length a" for i j
    using sorted_nth_mono [OF assms(2), of i j] that lp by simp
  then show ?thesis using assms(1,3) by (auto simp: argpartition_ok_def)
qed

lemma stable_argsort_ok: "argsort_ok a (stable_argsort a)"
  by (simp add: argsort_ok_def stable_argsort_def)


lemma ref_np_contracts:
  "argpartition_contract (argpartition ref_np)" "argsort_contract (argsort ref_np)"
  "kmeans_contract (kmeans ref_np)"
  using stable_argsort_ok
  by (auto simp: ref_np_def argpartition_contract_def argsort_contract_def kmeans_contract_def
      argsort_ok_def intro!: sorted_perm_argpartition_ok)


subsection \<open>The planner and the pruner\<close>

lemma centroid_pairs_length: "length centroid_pairs = 65536"
  unfolding centroid_pairs_def by (simp only: length_map length_upt)

lemma centroid_pairs_nth: "k < 65536 \<Longrightarrow> centroid_pairs ! k = (k div 256, k mod 256)"
  unfolding centroid_pairs_def by (simp del: upt_rec_numeral)

lemma flat_length:
  "length (combined_distances_flat d1 d2) = length d1 * length d2"
  by (induction d1) (simp_all add: combined_distances_flat_def)

lemma flat_nth:
  "k < length d1 * length d2 \<Longrightarrow>
   combined_distances_flat d1 d2 ! k = d1 ! (k div length d2) + d2 ! (k mod length d2)"
proof (induction d1 arbitrary: k)
  case Nil
  then show ?case by simp
next
  case (Cons a d1)
  let ?n = "length d2"
  have n0: "0 < ?n" using Cons.prems by (cases "?n = 0") auto
  have unf: "combined_distances_flat (a # d1) d2 =
             map (\<lambda>b. a + b) d2 @ combined_distances_flat d1 d2"
    by (simp add: combined_distances_flat_def)
  show ?case
  proof (cases "k < ?n")
    case True
    then show ?thesis by (simp add: unf nth_append)
  next
    case False
    then have kn: "?n \<le> k" by simp
    have "k - ?n < length d1 * ?n" using Cons.prems kn by simp
    from Cons.IH [OF this]
    have "combined_distances_flat d1 d2 ! (k - ?n) =
          d1 ! ((k - ?n) div ?n) + d2 ! ((k - ?n) mod ?n)" .
    moreover have "(k - ?n) mod ?n = k mod ?n" using kn by (simp add: le_mod_geq)
    moreover have "k div ?n = Suc ((k - ?n) div ?n)" using kn n0 by (simp add: le_div_geq)
    ultimately show ?thesis using False by (simp add: unf nth_append)
  qed
qed

lemma cdist_single: "concat (cdist np [q] B) = map (\<lambda>b. cosine np q b) B"
  by (simp add: cdist_def)

lemma query_planner_spec:
  fixes np :: "('f::{linorder,plus}) numlib"
  assumes ap: "argpartition_contract (argpartition np)"
    and srt: "argsort_contract (argsort np)"
    and l1: "length c1 = 256" and l2: "length c2 = 256"
    and n0: "0 < nprobe" and nn: "nprobe * nprobe < 65536"
  shows "\<exists>ps. query_planner np self c1 c2 query16 nprobe = Inr ps \<and>
           length ps = nat (nprobe * nprobe) \<and> distinct ps \<and>
           set ps \<subseteq> {0..<256} \<times> {0..<256} \<and>
           sorted (map (combined_distance np c1 c2 (take (subspace_dim self) query16)
                          (drop (subspace_dim self) query16)) ps) \<and>
           (\<forall>q \<in> {0..<256} \<times> {0..<256} - set ps. \<forall>p \<in> set ps.
              combined_distance np c1 c2 (take (subspace_dim self) query16)
                (drop (subspace_dim self) query16) p
              \<le> combined_distance np c1 c2 (take (subspace_dim self) query16)
                  (drop (subspace_dim self) query16) q)"
proof -
  define q1 where "q1 = take (subspace_dim self) query16"
  define q2 where "q2 = drop (subspace_dim self) query16"
  define d1 where "d1 = map (\<lambda>b. cosine np q1 b) c1"
  define d2 where "d2 = map (\<lambda>b. cosine np q2 b) c2"
  define flat where "flat = combined_distances_flat d1 d2"
  define D where "D = combined_distance np c1 c2 q1 q2"
  define dec where "dec = (\<lambda>k::nat. (k div 256, k mod 256))"
  have lf: "length flat = 65536" by (simp add: flat_def flat_length d1_def d2_def l1 l2)
  have fD: "flat ! k = D (dec k)" if "k < 65536" for k
  proof -
    have "k div 256 < 256" using that by (simp add: less_mult_imp_div_less)
    then show ?thesis
      using that flat_nth [of k d1 d2]
      by (simp add: flat_def D_def dec_def combined_distance_def d1_def d2_def l1 l2)
  qed
  have kk: "0 \<le> nprobe * nprobe" "nat (nprobe * nprobe) < length flat"
    using nn by (simp_all add: lf)
  from top_sorted_spec [OF ap srt kk]
  obtain t where t: "top_sorted np flat (nprobe * nprobe) = Inr t"
    "length t = nat (nprobe * nprobe)" "distinct t" "set t \<subseteq> {0..<length flat}"
    "sorted (map (\<lambda>i. flat ! i) t)"
    "\<forall>i < length flat. i \<notin> set t \<longrightarrow> (\<forall>j \<in> set t. flat ! j \<le> flat ! i)"
    by blast
  have tb: "\<forall>k \<in> set t. k < 65536" using t(4) lf by auto
  define ps where "ps = map dec t"
  have fi: "fancy_index centroid_pairs t = Inr ps"
  proof -
    have "fancy_index centroid_pairs t = Inr (map (\<lambda>i. centroid_pairs ! i) t)"
      using tb by (intro fancy_index_Inr) (simp add: centroid_pairs_length)
    moreover have "map (\<lambda>i. centroid_pairs ! i) t = ps"
      using tb by (simp add: ps_def dec_def centroid_pairs_nth)
    ultimately show ?thesis by simp
  qed
  have res: "query_planner np self c1 c2 query16 nprobe = Inr ps"
    by (simp add: query_planner_def Let_def cdist_single bind_err_def
        q1_def [symmetric] q2_def [symmetric] d1_def [symmetric] d2_def [symmetric]
        flat_def [symmetric] t(1) fi)
  have inj: "inj_on dec {0..<65536}"
  proof (rule inj_onI)
    fix x y :: nat
    assume "dec x = dec y"
    then have "x div 256 = y div 256" "x mod 256 = y mod 256" by (simp_all add: dec_def)
    then show "x = y" by (metis div_mult_mod_eq)
  qed
  have dps: "distinct ps"
    unfolding ps_def distinct_map using t(3) tb inj
    by (auto intro: inj_on_subset)
  have grid: "set ps \<subseteq> {0..<256} \<times> {0..<256}"
    using tb by (auto simp: ps_def dec_def less_mult_imp_div_less)
  have "map D ps = map (\<lambda>i. flat ! i) t"
    using tb fD by (simp add: ps_def)
  then have sps: "sorted (map D ps)" using t(5) by simp
  have rest: "D p \<le> D q" if hq: "q \<in> {0..<256} \<times> {0..<256} - set ps" and hp: "p \<in> set ps" for p q
  proof -
    obtain i j where ij: "q = (i, j)" "i < 256" "j < 256" using hq by (cases q) auto
    define k where "k = i * 256 + j"
    have k: "k < 65536" "dec k = q" using ij by (simp_all add: k_def dec_def)
    have "k \<notin> set t" using hq k(2) by (auto simp: ps_def)
    moreover obtain m where m: "m \<in> set t" "p = dec m" using hp by (auto simp: ps_def)
    ultimately have "flat ! m \<le> flat ! k" using t(6) k(1) lf by simp
    then show ?thesis using fD [OF k(1)] fD [of m] m tb k(2) by simp
  qed
  have lps: "length ps = nat (nprobe * nprobe)" using t(2) by (simp add: ps_def)
  have "query_planner np self c1 c2 query16 nprobe = Inr ps \<and>
        length ps = nat (nprobe * nprobe) \<and> distinct ps \<and>
        set ps \<subseteq> {0..<256} \<times> {0..<256} \<and> sorted (map D ps) \<and>
        (\<forall>q \<in> {0..<256} \<times> {0..<256} - set ps. \<forall>p \<in> set ps. D p \<le> D q)"
    using res lps dps grid sps rest by blast
  then show ?thesis unfolding D_def q1_def q2_def by (rule exI)
qed

lemma representative_pruner_spec:
  fixes np :: "('f::linorder) numlib"
  assumes ap: "argpartition_contract (argpartition np)"
    and srt: "argsort_contract (argsort np)"
    and valid: "\<forall>pair \<in> set cps. fst pair < length c1 \<and> snd pair < length c2 \<and>
                  length (c1 ! fst pair @ c2 ! snd pair) = dimension self"
    and dist: "distinct cps" and ne: "cps \<noteq> []" and pf: "1 \<le> pf"
  shows "\<exists>kept. representative_pruner np self c1 c2 query16 cps pf = Inr kept \<and>
           int (length kept) = min pf (int (length cps)) - 1 \<and> distinct kept \<and>
           set kept \<subseteq> set cps \<and>
           sorted (map (representative_distance np c1 c2 query16) kept) \<and>
           (\<forall>q \<in> set cps - set kept. \<forall>p \<in> set kept.
              representative_distance np c1 c2 query16 p
              \<le> representative_distance np c1 c2 query16 q)"
proof -
  define rd where "rd = representative_distance np c1 c2 query16"
  define rv where "rv = (\<lambda>pair. map (float16 np) (c1 ! fst pair @ c2 ! snd pair))"
  define reps where "reps = map rv cps"
  define a where "a = map rd cps"
  define kc where "kc = min pf (int (length cps)) - 1"
  have e1: "map_err (representative_vector np self c1 c2) cps = Inr reps"
    unfolding reps_def using valid
    by (intro map_err_Inr) (simp add: representative_vector_def rv_def)
  have e2: "concat (cdist np [query16] reps) = a"
    by (simp add: cdist_single reps_def a_def rd_def rv_def representative_distance_def)
  have la: "length a = length cps" by (simp add: a_def)
  have lpos: "0 < length cps" using ne by simp
  have kk: "0 \<le> kc" "nat kc < length a" using pf lpos unfolding kc_def la by linarith+
  from top_sorted_spec [OF ap srt kk]
  obtain t where t: "top_sorted np a kc = Inr t"
    "length t = nat kc" "distinct t" "set t \<subseteq> {0..<length a}"
    "sorted (map (\<lambda>i. a ! i) t)"
    "\<forall>i < length a. i \<notin> set t \<longrightarrow> (\<forall>j \<in> set t. a ! j \<le> a ! i)"
    by blast
  have tb: "\<forall>k \<in> set t. k < length cps" using t(4) la by auto
  define kept where "kept = map (\<lambda>i. cps ! i) t"
  have e3: "fancy_index cps t = Inr kept"
    unfolding kept_def using tb by (intro fancy_index_Inr) simp
  have res: "representative_pruner np self c1 c2 query16 cps pf = Inr kept"
    by (simp add: representative_pruner_def bind_err_def e1 e2 Let_def kc_def [symmetric] t(1) e3)
  have len: "int (length kept) = kc" using t(2) kk(1) by (simp add: kept_def)
  have dk: "distinct kept"
    unfolding kept_def distinct_map using t(3) tb dist
    by (auto simp: inj_on_def nth_eq_iff_index_eq)
  have sub: "set kept \<subseteq> set cps" using tb by (auto simp: kept_def)
  have "map rd kept = map (\<lambda>i. a ! i) t" using tb by (simp add: kept_def a_def)
  then have sk: "sorted (map rd kept)" using t(5) by simp
  have rest: "rd p \<le> rd q" if hq: "q \<in> set cps - set kept" and hp: "p \<in> set kept" for p q
  proof -
    obtain i where i: "i < length cps" "q = cps ! i"
      using hq by (auto simp: in_set_conv_nth)
    have "i \<notin> set t" using hq i by (auto simp: kept_def)
    moreover obtain m where m: "m \<in> set t" "p = cps ! m" using hp by (auto simp: kept_def)
    ultimately have "a ! m \<le> a ! i" using t(6) i(1) la by simp
    then show ?thesis using i m tb by (simp add: a_def)
  qed
  have "representative_pruner np self c1 c2 query16 cps pf = Inr kept \<and>
        int (length kept) = kc \<and> distinct kept \<and> set kept \<subseteq> set cps \<and>
        sorted (map rd kept) \<and> (\<forall>q \<in> set cps - set kept. \<forall>p \<in> set kept. rd p \<le> rd q)"
    using res len dk sub sk rest by blast
  then show ?thesis unfolding rd_def kc_def by (rule exI)
qed

lemma search_tail_empty:
  "candidate_assembler files [] = Inr []"
  "batch_numbers [] max_difference batch_limit = []"
  "score_batches np db query16 top_k [] [] = Inr ([], [])"
  by (simp_all add: candidate_assembler_def load_index_inverted_lists_def bind_err_def
      batch_numbers_def batch_loop.simps score_batches_def collect_batches_def
      as_completed_def global_merger_def nsmallest_def)

lemma search_pruned_empty:
  assumes "centroids_pkl files = (Some c1, Some c2)"
    and "query_planner np self c1 c2 (map (float16 np) query_vector) nprobe = Inr ps"
    and "representative_pruner np self c1 c2 (map (float16 np) query_vector) ps pf = Inr []"
  shows "search np self db files query_vector top_k nprobe max_difference batch_limit pf [] =
           Inr ([], [])"
  using assms by (simp add: search_def candidate_batches_def bind_err_def search_tail_empty)

lemma length_1_list: "length xs = Suc 0 \<Longrightarrow> \<exists>x. xs = [x]"
  by (cases xs) auto

lemma nprobe_1_pruned_empty:
  fixes np :: "('f::{linorder,plus}) numlib"
  assumes ap: "argpartition_contract (argpartition np)"
    and srt: "argsort_contract (argsort np)"
    and files: "centroids_pkl files = (Some c1, Some c2)"
    and l1: "length c1 = 256" and l2: "length c2 = 256"
    and rows: "\<forall>i < 256. \<forall>j < 256. length (c1 ! i @ c2 ! j) = dimension self"
    and pf: "1 \<le> pf"
  shows "\<exists>p. query_planner np self c1 c2 (map (float16 np) query_vector) 1 = Inr [p] \<and>
             representative_pruner np self c1 c2 (map (float16 np) query_vector) [p] pf = Inr [] \<and>
             search np self db files query_vector top_k 1 max_difference batch_limit pf [] =
               Inr ([], [])"
proof -
  let ?q = "map (float16 np) query_vector"
  from query_planner_spec [OF ap srt l1 l2, of 1 self ?q]
  obtain ps where ps: "query_planner np self c1 c2 ?q 1 = Inr ps" "length ps = Suc 0"
    "set ps \<subseteq> {0..<256} \<times> {0..<256}"
    by auto
  then obtain p where p: "ps = [p]" using length_1_list by blast
  have valid: "\<forall>pair \<in> set [p]. fst pair < length c1 \<and> snd pair < length c2 \<and>
                 length (c1 ! fst pair @ c2 ! snd pair) = dimension self"
    using ps(3) rows unfolding p l1 l2 by auto
  from representative_pruner_spec [OF ap srt valid _ _ pf, of ?q]
  obtain kept where k: "representative_pruner np self c1 c2 ?q [p] pf = Inr kept"
    "int (length kept) = min pf (int (length [p])) - 1"
    by auto
  have "kept = []" using k(2) pf by simp
  then have pr: "representative_pruner np self c1 c2 ?q [p] pf = Inr []" using k(1) by simp
  show ?thesis
    using ps(1) pr search_pruned_empty [OF files ps(1) [unfolded p] pr] unfolding p by blast
qed

lemma ex_centroids_facts:
  "length ex_centroids = 256"
  "\<forall>i < 256. \<forall>j < 256. length (ex_centroids ! i @ ex_centroids ! j) = dimension ex_index"
  by (auto simp: ex_centroids_def ex_index_def nth_append)

lemma concat_replicate_replicate:
  "concat (replicate m (replicate n x)) = replicate (m * n) x"
  by (induction m) (simp_all add: replicate_add)



lemma flat_all_equal:
  "combined_distances_flat (replicate m (a::real)) (replicate n b) = replicate (m * n) (a + b)"
  by (simp add: combined_distances_flat_def concat_replicate_replicate)







text \<open>
  C3 fails on the code. With \<open>nprobe = 1\<close> the planner returns exactly one pair, as C3
  says, but for every \<open>pruning_factor \<ge> 1\<close> the pruner's
  \<open>keep_count = min(pruning_factor, 1) - 1\<close> is 0: the pair does not survive, no inverted
  list is read, and \<open>search\<close> returns two empty arrays.
\<close>

theorem search_nprobe_1_returns_nothing:
  fixes np :: "('f::{linorder,plus}) numlib"
  assumes "argpartition_contract (argpartition np)"
    and "argsort_contract (argsort np)"
    and "centroids_pkl files = (Some c1, Some c2)"
    and "length c1 = 256" and "length c2 = 256"
    and "\<forall>i < 256. \<forall>j < 256. length (c1 ! i @ c2 ! j) = dimension self"
    and "1 \<le> pruning_factor"
  shows "\<exists>p. query_planner np self c1 c2 (map (float16 np) query_vector) 1 = Inr [p] \<and>
             representative_pruner np self c1 c2 (map (float16 np) query_vector) [p]
               pruning_factor = Inr [] \<and>
             search np self db files query_vector top_k 1 max_difference batch_limit
               pruning_factor [] = Inr ([], [])"
  using nprobe_1_pruned_empty [OF assms] .

text \<open>The theorem of C3 at the example index and the default parameters of
  \<open>search\<close>.\<close>

theorem search_nprobe_1_returns_nothing_witness:
  "length ex_centroids = 256 \<and> (1::int) \<le> 2250 \<and>
   (\<exists>p. query_planner ref_np ex_index ex_centroids ex_centroids (map (float16 ref_np) [1, 1]) 1
           = Inr [p] \<and>
        representative_pruner ref_np ex_index ex_centroids ex_centroids
          (map (float16 ref_np) [1, 1]) [p] 2250 = Inr [] \<and>
        search ref_np ex_index ex_db ex_files [1, 1] 5 1 10000 2000 2250 [] = Inr ([], []))"
proof -
  have f: "centroids_pkl ex_files = (Some ex_centroids, Some ex_centroids)"
    by (simp add: ex_files_def)
  from search_nprobe_1_returns_nothing [OF ref_np_contracts(1,2) f ex_centroids_facts(1)
      ex_centroids_facts(1) ex_centroids_facts(2), of 2250 "[1, 1]" ex_db 5 10000 2000]
  show ?thesis using ex_centroids_facts(1) by auto
qed

subsection \<open>The order in which the batches complete\<close>

lemma map_err_id_Inr: "map_err (\<lambda>r. r) xs = Inr rs \<longleftrightarrow> xs = map Inr rs"
proof (induction xs arbitrary: rs)
  case Nil
  then show ?case by auto
next
  case (Cons x xs)
  show ?case
  proof (cases x)
    case (Inl e)
    then show ?thesis by auto
  next
    case (Inr y)
    then show ?thesis using Cons [of "tl rs"]
      by (cases rs; cases "map_err (\<lambda>r. r) xs") auto
  qed
qed

lemma as_completed_perm:
  assumes "mset order = mset [0..<length futures]"
  shows "mset (as_completed order futures) = mset futures"
proof -
  have "mset (as_completed order futures) = image_mset (\<lambda>i. futures ! i) (mset order)"
    by (simp add: as_completed_def)
  also have "\<dots> = mset (map (\<lambda>i. futures ! i) [0..<length futures])"
    by (simp only: assms mset_map)
  also have "\<dots> = mset futures" by (simp only: map_nth)
  finally show ?thesis .
qed

lemma mset_map_Inr_eq:
  assumes "mset ys = mset (map Inr rs)"
  shows "\<exists>rs'. ys = map Inr rs' \<and> mset rs' = mset rs"
proof -
  have "set ys = Inr ` set rs" using assms by (metis mset_eq_setD set_map)
  then have all: "\<forall>y \<in> set ys. Inr (projr y) = y" by auto
  have ys: "ys = map Inr (map projr ys)"
    using all by (induction ys) simp_all
  have "mset (map projr ys) = image_mset projr (mset ys)" by simp
  also have "\<dots> = mset rs" unfolding assms by (simp add: multiset.map_comp comp_def)
  finally have "mset (map projr ys) = mset rs" .
  then show ?thesis using ys by (intro exI [of _ "map projr ys"]) simp
qed

lemma mset_concat_cong: "mset rs' = mset rs \<Longrightarrow> mset (concat rs') = mset (concat rs)"
proof -
  have c: "mset (concat xs) = sum_mset (image_mset mset (mset xs))" for xs :: "'b list list"
    by (induction xs) simp_all
  show "mset rs' = mset rs \<Longrightarrow> mset (concat rs') = mset (concat rs)"
    by (simp add: c)
qed

lemma collect_batches_perm:
  assumes o1: "mset o1 = mset [0..<length batches]"
    and o2: "mset o2 = mset [0..<length batches]"
    and c1: "collect_batches np db query16 top_k batches o1 = Inr a1"
  shows "\<exists>a2. collect_batches np db query16 top_k batches o2 = Inr a2 \<and> mset a2 = mset a1"
proof -
  let ?fs = "map (process_batch np db query16 top_k) batches"
  from c1 obtain rs1 where rs1: "map_err (\<lambda>r. r) (as_completed o1 ?fs) = Inr rs1" "a1 = concat rs1"
    by (auto simp: collect_batches_def bind_err_def split: sum.splits)
  then have e1: "as_completed o1 ?fs = map Inr rs1" by (simp add: map_err_id_Inr)
  have "mset (as_completed o2 ?fs) = mset (as_completed o1 ?fs)"
    using as_completed_perm [of o1 ?fs] as_completed_perm [of o2 ?fs] o1 o2 by simp
  then obtain rs2 where rs2: "as_completed o2 ?fs = map Inr rs2" "mset rs2 = mset rs1"
    using mset_map_Inr_eq [of "as_completed o2 ?fs" rs1] e1 by auto
  have "map_err (\<lambda>r. r) (as_completed o2 ?fs) = Inr rs2" using rs2(1) by (simp add: map_err_id_Inr)
  then have "collect_batches np db query16 top_k batches o2 = Inr (concat rs2)"
    by (simp add: collect_batches_def bind_err_def)
  moreover have "mset (concat rs2) = mset a1" using rs2(2) rs1(2) mset_concat_cong by blast
  ultimately show ?thesis by blast
qed

lemma sorted_keys_perm:
  fixes f :: "'b \<Rightarrow> 'f::linorder"
  assumes "mset xs = mset ys"
  shows "map f (sort_key f xs) = map f (sort_key f ys)"
proof -
  have m: "mset (map f (sort_key f xs)) = mset (map f (sort_key f ys))"
    using assms by simp
  have "sort (map f (sort_key f ys)) = map f (sort_key f xs)"
    by (rule properties_for_sort [OF m]) simp
  moreover have "sort (map f (sort_key f ys)) = map f (sort_key f ys)"
    by (simp add: sort_key_id_if_sorted)
  ultimately show ?thesis by simp
qed

lemma global_merger_perm:
  fixes a1 :: "(('f::linorder) \<times> int) list"
  assumes "mset a2 = mset a1"
  shows "fst (global_merger top_k a2) = fst (global_merger top_k a1)"
    and "length (snd (global_merger top_k a2)) = length (snd (global_merger top_k a1))"
    and "inj_on fst (set a1) \<Longrightarrow> global_merger top_k a2 = global_merger top_k a1"
proof -
  have "map fst (sort_key fst a2) = map fst (sort_key fst a1)"
    using assms by (rule sorted_keys_perm)
  then show "fst (global_merger top_k a2) = fst (global_merger top_k a1)"
    by (simp add: global_merger_def nsmallest_def take_map [symmetric])
  have "length a2 = length a1" using assms by (rule mset_eq_length)
  then show "length (snd (global_merger top_k a2)) = length (snd (global_merger top_k a1))"
    by (simp add: global_merger_def nsmallest_def Let_def)
  assume "inj_on fst (set a1)"
  then have "sort_key fst a1 = sort_key fst a2"
    using assms by (intro sort_key_eq_sort_key) simp_all
  then show "global_merger top_k a2 = global_merger top_k a1"
    by (simp add: global_merger_def nsmallest_def)
qed

lemma stable_argsort_replicate: "stable_argsort (replicate n c) = [0..<n]"
proof -
  have "map (\<lambda>i. replicate n c ! i) [0..<n] = map (\<lambda>i. c) [0..<n]"
    by (rule map_cong) auto
  then have "sorted (map (\<lambda>i. replicate n c ! i) [0..<n])"
    by (simp add: map_replicate_const)
  then show ?thesis
    unfolding stable_argsort_def length_replicate by (rule sort_key_id_if_sorted)
qed

lemma ex_planner:
  "query_planner ref_np ex_index ex_centroids ex_centroids (map (float16 ref_np) [1, 1]) 2
     = Inr [(0, 0), (0, 1), (0, 2), (0, 3)]"
proof -
  have d: "concat (cdist ref_np [take (subspace_dim ex_index) (map (float16 ref_np) [1, 1])]
             ex_centroids) = replicate 256 0"
    "concat (cdist ref_np [drop (subspace_dim ex_index) (map (float16 ref_np) [1, 1])]
             ex_centroids) = replicate 256 0"
    by (simp_all add: cdist_def ref_np_def ex_index_def pm_cosine_def ex_centroids_def)
  have flat: "combined_distances_flat (replicate 256 (0::real)) (replicate 256 0) = replicate 65536 0"
    by (simp add: flat_all_equal)
  have part: "np_argpartition ref_np (replicate 65536 (0::real)) (2 * 2) = Inr [0..<65536]"
    by (simp add: np_argpartition_def ref_np_def stable_argsort_replicate del: upt_rec_numeral)
  have top: "slice_to (2 * 2) [0..<65536] = [0, 1, 2, 3]"
  proof -
    have "slice_to (2 * 2) [0..<65536] = take 4 [0..<65536]"
      by (simp add: slice_to_def del: upt_rec_numeral)
    also have "\<dots> = [0..<4]" by (simp del: upt_rec_numeral)
    also have "\<dots> = [0, 1, 2, 3]" by code_simp
    finally show ?thesis .
  qed
  have vals: "fancy_index (replicate 65536 (0::real)) [0, 1, 2, 3] = Inr [0, 0, 0, 0]"
    by (simp add: fancy_index_def)
  have srt: "argsort ref_np [0, 0, 0, 0::real] = [0, 1, 2, 3]"
    by (simp add: ref_np_def stable_argsort_def)
  have ts: "top_sorted ref_np (replicate 65536 (0::real)) (2 * 2) = Inr [0, 1, 2, 3]"
    unfolding top_sorted_def bind_err_def part sum.case Let_def top vals srt
    by (simp add: fancy_index_def)
  have fin: "fancy_index centroid_pairs [0, 1, 2, 3] = Inr [(0, 0), (0, 1), (0, 2), (0, 3)]"
    by (simp add: fancy_index_def centroid_pairs_length centroid_pairs_nth)
  show ?thesis
    unfolding query_planner_def Let_def d flat ts bind_err_def sum.case fin ..
qed

lemma ex_pruner:
  "representative_pruner ref_np ex_index ex_centroids ex_centroids (map (float16 ref_np) [1, 1])
     [(0, 0), (0, 1), (0, 2), (0, 3)] 3 = Inr [(0, 0), (0, 1)]"
  by (simp add: representative_pruner_def representative_vector_def bind_err_def cdist_def
      top_sorted_def np_argpartition_def slice_to_def fancy_index_def ref_np_def
      stable_argsort_def pm_cosine_def ex_index_def ex_centroids_def)

lemma ex_assembler:
  "candidate_assembler ex_files [(0, 0), (0, 1)] = Inr [3, 20004]"
  by (simp add: candidate_assembler_def load_index_inverted_lists_def load_key_def bind_err_def
      ex_files_def slice_def)

lemma ex_batches: "batch_numbers [3, 20004] 10000 2000 = [[3], [20004]]"
  by (simp add: batch_numbers_def batch_loop.simps searchsorted_right_def slice_def)

lemma ex_candidate_batches:
  "candidate_batches ref_np ex_index ex_files [1, 1] 2 10000 2000 3 = Inr [[3], [20004]]"
proof -
  have f: "centroids_pkl ex_files = (Some ex_centroids, Some ex_centroids)"
    by (simp add: ex_files_def)
  show ?thesis
    unfolding candidate_batches_def Let_def f prod.case option.case ex_planner bind_err_def
      sum.case ex_pruner ex_assembler ex_batches ..
qed

lemma ref_np_float16: "float16 ref_np x = x"
  by (simp add: ref_np_def)

lemma ex_process:
  "process_batch ref_np ex_db [1, 1] top_k [3] =
     (if 1 \<le> top_k then Inr [(0, 3)] else process_batch ref_np ex_db [1, 1] top_k [3])"
  "process_batch ref_np ex_db [1, 1] top_k [20004] =
     (if 1 \<le> top_k then Inr [(0, 20004)] else process_batch ref_np ex_db [1, 1] top_k [20004])"
  by (simp_all add: process_batch_def ex_db_def np_index_def bind_err_def cdist_def ref_np_def
      pm_cosine_def)

lemma ex_search:
  "1 \<le> top_k \<Longrightarrow>
   search ref_np ex_index ex_db ex_files [1, 1] top_k 2 10000 2000 3 [0, 1] =
     Inr (global_merger top_k [(0, 3), (0, 20004)])"
  "1 \<le> top_k \<Longrightarrow>
   search ref_np ex_index ex_db ex_files [1, 1] top_k 2 10000 2000 3 [1, 0] =
     Inr (global_merger top_k [(0, 20004), (0, 3)])"
proof -
  assume k: "1 \<le> top_k"
  have p: "process_batch ref_np ex_db [1, 1] top_k [3] = Inr [(0, 3)]"
    "process_batch ref_np ex_db [1, 1] top_k [20004] = Inr [(0, 20004)]"
    using k ex_process [of top_k] by simp_all
  show "search ref_np ex_index ex_db ex_files [1, 1] top_k 2 10000 2000 3 [0, 1] =
          Inr (global_merger top_k [(0, 3), (0, 20004)])"
    by (simp add: search_def ex_candidate_batches bind_err_def score_batches_def
        collect_batches_def as_completed_def ref_np_float16 p)
  show "search ref_np ex_index ex_db ex_files [1, 1] top_k 2 10000 2000 3 [1, 0] =
          Inr (global_merger top_k [(0, 20004), (0, 3)])"
    by (simp add: search_def ex_candidate_batches bind_err_def score_batches_def
        collect_batches_def as_completed_def ref_np_float16 p)
qed

text \<open>
  C6, as the code has it. \<open>search\<close> is a function of the query, the index files, the
  vector store, the parameters and the order in which the batches complete. For two such
  orders, each a permutation of the positions of the batches: when one invocation
  returns, so does the other, with the same array of distances and as many ids; and the
  two arrays of ids are the same when no two of the collected pairs have the same
  distance. Among pairs of one distance the merger keeps the order of collection (C4),
  which is the order of completion.
\<close>

theorem search_completion_order:
  fixes np :: "('f::{linorder,plus}) numlib"
  assumes b: "candidate_batches np self files query_vector nprobe max_difference batch_limit
                pruning_factor = Inr batches"
    and o1: "mset o1 = mset [0..<length batches]"
    and o2: "mset o2 = mset [0..<length batches]"
    and s1: "search np self db files query_vector top_k nprobe max_difference batch_limit
               pruning_factor o1 = Inr (ds1, ids1)"
  shows "\<exists>ids2 a1.
           search np self db files query_vector top_k nprobe max_difference batch_limit
             pruning_factor o2 = Inr (ds1, ids2) \<and>
           length ids2 = length ids1 \<and>
           collect_batches np db (map (float16 np) query_vector) top_k batches o1 = Inr a1 \<and>
           (inj_on fst (set a1) \<longrightarrow> ids2 = ids1)"
proof -
  let ?q = "map (float16 np) query_vector"
  have se: "search np self db files query_vector top_k nprobe max_difference batch_limit
              pruning_factor ord = score_batches np db ?q top_k batches ord" for ord
    by (simp add: search_def bind_err_def b)
  from s1 obtain a1 where a1: "collect_batches np db ?q top_k batches o1 = Inr a1"
    "global_merger top_k a1 = (ds1, ids1)"
    by (auto simp: se score_batches_def bind_err_def split: sum.splits)
  from collect_batches_perm [OF o1 o2 a1(1)]
  obtain a2 where a2: "collect_batches np db ?q top_k batches o2 = Inr a2" "mset a2 = mset a1"
    by blast
  note gp = global_merger_perm [OF a2(2), of top_k]
  define ids2 where "ids2 = snd (global_merger top_k a2)"
  have r2: "search np self db files query_vector top_k nprobe max_difference batch_limit
              pruning_factor o2 = Inr (ds1, ids2)"
    using gp(1) a1(2) by (simp add: se score_batches_def bind_err_def a2(1) ids2_def prod_eq_iff)
  have len: "length ids2 = length ids1" using gp(2) a1(2) by (simp add: ids2_def)
  have same: "ids2 = ids1" if "inj_on fst (set a1)"
    using gp(3) [OF that] a1(2) by (simp add: ids2_def)
  show ?thesis using r2 len a1(1) same by blast
qed

text \<open>The theorem of C6 at the example index with \<open>nprobe = 2\<close>,
  \<open>pruning_factor = 3\<close> and \<open>top_k = 5\<close>: the candidates 3 and 20004 fall into two
  batches, which complete in either order.\<close>

theorem search_completion_order_witness:
  "candidate_batches ref_np ex_index ex_files [1, 1] 2 10000 2000 3 = Inr [[3], [20004]] \<and>
   mset [0, 1] = mset [0..<length [[3::int], [20004]]] \<and>
   mset [1, 0] = mset [0..<length [[3::int], [20004]]] \<and>
   search ref_np ex_index ex_db ex_files [1, 1] 5 2 10000 2000 3 [0, 1] = Inr ([0, 0], [3, 20004]) \<and>
   (\<exists>ids2. search ref_np ex_index ex_db ex_files [1, 1] 5 2 10000 2000 3 [1, 0] = Inr ([0, 0], ids2) \<and>
           length ids2 = length [3::int, 20004])"
proof -
  have s: "search ref_np ex_index ex_db ex_files [1, 1] 5 2 10000 2000 3 [0, 1]
             = Inr ([0, 0], [3, 20004])"
    using ex_search(1) [of 5] by (simp add: global_merger_def nsmallest_def)
  have u: "[0..<length [[3::int], [20004]]] = [0, 1]" by code_simp
  have m: "mset [0, 1] = mset [0..<length [[3::int], [20004]]]"
    "mset [1, 0] = mset [0..<length [[3::int], [20004]]]"
    unfolding u by simp_all
  from search_completion_order [OF ex_candidate_batches m s]
  show ?thesis using ex_candidate_batches m s by auto
qed

text \<open>
  C6 as stated fails. In the example index the ids 3 and 20004 lie in the list of the
  pair \<open>(0, 0)\<close>, more than \<open>max_difference = 10000\<close> apart, and their vectors are
  at the same distance from the query. With \<open>top_k = 1\<close>, \<open>search\<close> returns id 3 when
  the first batch completes first and id 20004 when the second does.
\<close>

theorem search_completion_order_counterexample:
  "candidate_batches ref_np ex_index ex_files [1, 1] 2 10000 2000 3 = Inr [[3], [20004]] \<and>
   search ref_np ex_index ex_db ex_files [1, 1] 1 2 10000 2000 3 [0, 1] = Inr ([0], [3]) \<and>
   search ref_np ex_index ex_db ex_files [1, 1] 1 2 10000 2000 3 [1, 0] = Inr ([0], [20004])"
  using ex_candidate_batches ex_search [of 1] by (simp add: global_merger_def nsmallest_def)

subsection \<open>The fixed grid of the query path\<close>

lemma centroid_pairs_set: "set centroid_pairs = {0..<256} \<times> {0..<256}"
proof -
  have "set centroid_pairs = (\<lambda>k. (k div 256, k mod 256)) ` {0..<65536}"
    unfolding centroid_pairs_def by (simp del: upt_rec_numeral)
  also have "\<dots> = {0..<256} \<times> {0..<256}"
  proof (intro equalityI subsetI)
    fix p :: "nat \<times> nat"
    assume "p \<in> (\<lambda>k. (k div 256, k mod 256)) ` {0..<65536}"
    then show "p \<in> {0..<256} \<times> {0..<256}"
      by (auto simp: less_mult_imp_div_less)
  next
    fix p :: "nat \<times> nat"
    assume p: "p \<in> {0..<256} \<times> {0..<256}"
    then have "fst p * 256 + snd p \<in> {0..<65536}" by auto
    moreover have "p = ((fst p * 256 + snd p) div 256, (fst p * 256 + snd p) mod 256)"
      using p by auto
    ultimately show "p \<in> (\<lambda>k. (k div 256, k mod 256)) ` {0..<65536}" by (rule rev_image_eqI)
  qed
  finally show ?thesis .
qed

lemma nlist_planner:
  "query_planner np (self \<lparr> nlist := C \<rparr>) c1 c2 query16 nprobe =
   query_planner np self c1 c2 query16 nprobe"
  by (simp add: query_planner_def)

lemma nlist_pruner:
  "representative_pruner np (self \<lparr> nlist := C \<rparr>) c1 c2 query16 ps pruning_factor =
   representative_pruner np self c1 c2 query16 ps pruning_factor"
proof -
  have "representative_vector np (self \<lparr> nlist := C \<rparr>) c1 c2 =
        representative_vector np self c1 c2"
    by (rule ext) (simp add: representative_vector_def Let_def)
  then show ?thesis by (simp add: representative_pruner_def)
qed

lemma nlist_search:
  "search np (self \<lparr> nlist := C \<rparr>) db files query_vector top_k nprobe max_difference
     batch_limit pruning_factor ord =
   search np self db files query_vector top_k nprobe max_difference batch_limit
     pruning_factor ord"
  by (simp add: search_def candidate_batches_def nlist_planner nlist_pruner Let_def
      split: prod.splits option.splits)

lemma fancy_index_centroid_pairs:
  "fancy_index centroid_pairs ks =
     (if list_all (\<lambda>k. k < 65536) ks then Inr (map (\<lambda>k. (k div 256, k mod 256)) ks)
      else Inl IndexError)"
proof -
  have "map (\<lambda>i. centroid_pairs ! i) ks = map (\<lambda>k. (k div 256, k mod 256)) ks"
    if "list_all (\<lambda>k. k < 65536) ks"
    using that by (intro map_cong) (auto simp: list_all_iff centroid_pairs_nth)
  then show ?thesis by (simp add: fancy_index_def centroid_pairs_length)
qed

lemma query_planner_decode:
  "query_planner np self c1 c2 query16 nprobe =
     bind_err
       (top_sorted np
          (combined_distances_flat
             (map (\<lambda>b. cosine np (take (subspace_dim self) query16) b) c1)
             (map (\<lambda>b. cosine np (drop (subspace_dim self) query16) b) c2))
          (nprobe * nprobe))
       (\<lambda>ks. if list_all (\<lambda>k. k < 65536) ks
              then Inr (map (\<lambda>k. (k div 256, k mod 256)) ks) else Inl IndexError)"
  by (simp add: query_planner_def Let_def cdist_single fancy_index_centroid_pairs)

lemma top_sorted_strict_min:
  fixes a :: "('f::linorder) list"
  assumes ap: "argpartition_contract (argpartition np)"
    and srt: "argsort_contract (argsort np)"
    and la: "1 < length a" and m: "m < length a"
    and best: "\<forall>i < length a. i \<noteq> m \<longrightarrow> a ! m < a ! i"
  shows "top_sorted np a 1 = Inr [m]"
proof -
  have kk: "(0::int) \<le> 1" "nat 1 < length a" using la by simp_all
  from top_sorted_spec [OF ap srt kk]
  obtain t where t: "top_sorted np a 1 = Inr t" "length t = Suc 0"
    "set t \<subseteq> {0..<length a}"
    "\<forall>i < length a. i \<notin> set t \<longrightarrow> (\<forall>j \<in> set t. a ! j \<le> a ! i)"
    by auto
  from t(2) obtain x where x: "t = [x]" using length_1_list by blast
  have xl: "x < length a" using t(3) x by simp
  have "x = m"
  proof (rule ccontr)
    assume ne: "x \<noteq> m"
    then have "a ! x \<le> a ! m" using t(4) m x by auto
    moreover have "a ! m < a ! x" using best xl ne by simp
    ultimately show False by simp
  qed
  then show ?thesis using t(1) x by simp
qed

lemma planner_pair_1_0:
  fixes np :: "('f::{linorder,plus}) numlib"
  assumes ap: "argpartition_contract (argpartition np)"
    and srt: "argsort_contract (argsort np)"
    and l1: "length c1 = C" and l2: "length c2 = C" and C2: "2 \<le> C"
    and best: "\<forall>i < C. \<forall>j < C. (i, j) \<noteq> (1, 0) \<longrightarrow>
        combined_distance np c1 c2 (take (subspace_dim self) query16)
          (drop (subspace_dim self) query16) (1, 0)
        < combined_distance np c1 c2 (take (subspace_dim self) query16)
            (drop (subspace_dim self) query16) (i, j)"
  shows "query_planner np self c1 c2 query16 1 =
           (if C < 65536 then Inr [(C div 256, C mod 256)] else Inl IndexError)"
proof -
  define q1 where "q1 = take (subspace_dim self) query16"
  define q2 where "q2 = drop (subspace_dim self) query16"
  define d1 where "d1 = map (\<lambda>b. cosine np q1 b) c1"
  define d2 where "d2 = map (\<lambda>b. cosine np q2 b) c2"
  define flat where "flat = combined_distances_flat d1 d2"
  define D where "D = combined_distance np c1 c2 q1 q2"
  have C0: "0 < C" using C2 by simp
  have lf: "length flat = C * C" by (simp add: flat_def flat_length d1_def d2_def l1 l2)
  have fD: "flat ! k = D (k div C, k mod C)" if "k < C * C" for k
  proof -
    have "k div C < C" using that by (simp add: less_mult_imp_div_less)
    moreover have "k mod C < C" using C0 by simp
    ultimately show ?thesis
      using that flat_nth [of k d1 d2]
      by (simp add: flat_def D_def combined_distance_def d1_def d2_def l1 l2)
  qed
  have CC: "C < C * C" using C2 by simp
  have la: "1 < length flat" using CC C2 lf by linarith
  have fC: "flat ! C = D (1, 0)" using fD [OF CC] C0 by simp
  have strict: "\<forall>i < length flat. i \<noteq> C \<longrightarrow> flat ! C < flat ! i"
  proof (intro allI impI)
    fix i assume i: "i < length flat" "i \<noteq> C"
    then have ic: "i < C * C" using lf by simp
    have "(i div C, i mod C) \<noteq> (1, 0)"
    proof
      assume "(i div C, i mod C) = (1, 0)"
      then have "i div C = 1" "i mod C = 0" by simp_all
      then have "i = C" using div_mult_mod_eq [of i C] by simp
      then show False using i(2) by simp
    qed
    moreover have "i div C < C" using ic by (simp add: less_mult_imp_div_less)
    moreover have "i mod C < C" using C0 by simp
    ultimately have "D (1, 0) < D (i div C, i mod C)"
      using best unfolding D_def q1_def q2_def by blast
    then show "flat ! C < flat ! i" using fC fD [OF ic] by simp
  qed
  have ts: "top_sorted np flat 1 = Inr [C]"
    using top_sorted_strict_min [OF ap srt la _ strict] CC lf by simp
  show ?thesis
    using ts
    by (simp add: query_planner_decode bind_err_def q1_def [symmetric] q2_def [symmetric]
        d1_def [symmetric] d2_def [symmetric] flat_def [symmetric])
qed

lemma planner_single_centroid:
  fixes np :: "('f::{linorder,plus}) numlib"
  assumes l1: "length c1 = 1" and l2: "length c2 = 1" and n: "1 \<le> nprobe"
  shows "query_planner np self c1 c2 query16 nprobe = Inl ValueError"
proof -
  have "1 * 1 \<le> nprobe * nprobe" using n by (intro mult_mono) simp_all
  then have k: "1 \<le> nprobe * nprobe" by simp
  show ?thesis
    using k
    by (simp add: query_planner_decode top_sorted_def np_argpartition_def Let_def bind_err_def
        flat_length l1 l2)
qed

lemma search_index_error:
  fixes np :: "('f::{linorder,plus}) numlib"
  assumes ap: "argpartition_contract (argpartition np)"
    and srt: "argsort_contract (argsort np)"
    and files: "centroids_pkl files = (Some c1, Some c2)"
    and l1: "length c1 = C" and l2: "length c2 = C" and C2: "2 \<le> C" and C256: "C < 256"
    and best: "\<forall>i < C. \<forall>j < C. (i, j) \<noteq> (1, 0) \<longrightarrow>
        combined_distance np c1 c2 (take (subspace_dim self) (map (float16 np) query_vector))
          (drop (subspace_dim self) (map (float16 np) query_vector)) (1, 0)
        < combined_distance np c1 c2 (take (subspace_dim self) (map (float16 np) query_vector))
            (drop (subspace_dim self) (map (float16 np) query_vector)) (i, j)"
  shows "search np self db files query_vector top_k 1 max_difference batch_limit
           pruning_factor ord = Inl IndexError"
proof -
  have p: "query_planner np self c1 c2 (map (float16 np) query_vector) 1 = Inr [(0, C)]"
    using planner_pair_1_0 [OF ap srt l1 l2 C2 best] C256 by simp
  have r: "representative_pruner np self c1 c2 (map (float16 np) query_vector) [(0, C)]
             pruning_factor = Inl IndexError"
    by (simp add: representative_pruner_def representative_vector_def bind_err_def l2)
  show ?thesis
    by (simp add: search_def candidate_batches_def Let_def files p r bind_err_def)
qed

lemma load_key_Inr:
  "load_key files (i, j) = Inr l \<Longrightarrow>
   i * 256 + j < length (index_offsets_bin files) \<and> l = record_window files (i * 256 + j)"
  by (auto simp: load_key_def record_window_def Let_def split: if_splits prod.splits)

lemma load_loop_spec:
  "load_loop files keys acc = Inr il \<Longrightarrow>
   (\<forall>key \<in> set keys. \<exists>l. load_key files key = Inr l \<and> map_of il key = Some l) \<and>
   (\<forall>key. key \<notin> set keys \<longrightarrow> map_of il key = map_of acc key)"
proof (induction keys arbitrary: acc)
  case Nil
  then show ?case by simp
next
  case (Cons k keys)
  from Cons.prems obtain l where l: "load_key files k = Inr l"
    and rest: "load_loop files keys (AList.update k l acc) = Inr il"
    by (auto split: sum.splits)
  note ih = Cons.IH [OF rest]
  have kk: "map_of il k = Some l"
  proof (cases "k \<in> set keys")
    case True
    then show ?thesis using ih l by auto
  next
    case False
    with ih have "map_of il k = map_of (AList.update k l acc) k" by blast
    then show ?thesis by (simp add: update_conv')
  qed
  have other: "map_of il key = map_of acc key" if "key \<notin> set (k # keys)" for key
  proof -
    from that have "key \<notin> set keys" "key \<noteq> k" by auto
    with ih have "map_of il key = map_of (AList.update k l acc) key" by blast
    then show ?thesis using \<open>key \<noteq> k\<close> by (simp add: update_conv')
  qed
  have mem: "\<exists>l'. load_key files key = Inr l' \<and> map_of il key = Some l'"
    if "key \<in> set (k # keys)" for key
    using that ih kk l by (cases "key = k") auto
  show ?case using mem other by blast
qed

lemma load_loop_raises:
  "key \<in> set keys \<Longrightarrow> load_key files key = Inl e \<Longrightarrow> \<exists>e'. load_loop files keys acc = Inl e'"
  by (induction keys arbitrary: acc) (auto split: sum.splits)

lemma load_key_no_record:
  "\<not> i * 256 + j < length (index_offsets_bin files) \<Longrightarrow> load_key files (i, j) = Inl IndexError"
  by (simp add: load_key_def)

lemma lookup_pair_1_0:
  assumes C2: "2 \<le> C" and C256: "C \<noteq> 256"
  shows "load_index_inverted_lists
           \<lparr> centroids_pkl = cs, index_offsets_bin = (replicate (C * C) (0, 0))[C := (0, 1)],
             concatenated_values_bin = [v] \<rparr> [(1, 0)] =
         (if 256 < C * C then Inr [((1, 0), [])] else Inl IndexError)"
    and "spec_offset_lookup C
           \<lparr> centroids_pkl = cs, index_offsets_bin = (replicate (C * C) (0, 0))[C := (0, 1)],
             concatenated_values_bin = [v] \<rparr> (1, 0) = [v]"
proof -
  have CC: "C < C * C" using C2 by simp
  show "load_index_inverted_lists
           \<lparr> centroids_pkl = cs, index_offsets_bin = (replicate (C * C) (0, 0))[C := (0, 1)],
             concatenated_values_bin = [v] \<rparr> [(1, 0)] =
         (if 256 < C * C then Inr [((1, 0), [])] else Inl IndexError)"
    using C256 by (simp add: load_index_inverted_lists_def load_key_def)
  show "spec_offset_lookup C
           \<lparr> centroids_pkl = cs, index_offsets_bin = (replicate (C * C) (0, 0))[C := (0, 1)],
             concatenated_values_bin = [v] \<rparr> (1, 0) = [v]"
    using CC by (simp add: spec_offset_lookup_def spec_record_def record_window_def slice_def)
qed

text \<open>
  C10. The query path never reads \<open>nlist\<close>: the planner and the whole of \<open>search\<close>
  compute the same for a handle made with any \<open>C\<close>. The planner decodes every flat
  index \<open>k\<close> that the selection returns as the pair \<open>(k div 256, k mod 256)\<close>, raising
  when \<open>k\<close> is not below \<open>256\<^sup>2\<close>, so that its pairs lie in the grid of
  \<open>256 \<times> 256\<close> pairs. \<open>load_index_inverted_lists\<close>, when it returns, maps each key
  \<open>(i, j)\<close> it was given to the window of record \<open>i * 256 + j\<close> of the offset table,
  which is the record of the specification for \<open>C = 256\<close>, and it raises when the
  table has no such record; for another \<open>C\<close> the two record numbers are equal only
  on the row \<open>i = 0\<close>.

  The agreement with the specification is then decided on an index of \<open>C\<close> centroids a
  side, at least 2, and a query for which the pair \<open>(1, 0)\<close> has a strictly smaller
  combined distance than every other pair of the index, so that with \<open>nprobe = 1\<close> the
  specified planner returns \<open>(1, 0)\<close> alone. Whatever the library does within its
  documentation, the planner of the code returns the pair \<open>(C div 256, C mod 256)\<close>, or
  raises when \<open>C\<close> is not below \<open>256\<^sup>2\<close>: it returns \<open>(1, 0)\<close> exactly when
  \<open>C = 256\<close>. For \<open>C\<close> below 256 the pair returned is \<open>(0, C)\<close>, which is no pair of
  the index, and \<open>search\<close> raises \<^verbatim>\<open>IndexError\<close> when the pruner reads centroid
  \<open>C\<close> of side 2. With one centroid a side the planner raises \<^verbatim>\<open>ValueError\<close> for
  every positive \<open>nprobe\<close>, the selection asking for more entries than it may. And
  for every \<open>C\<close> of at least 2 other than 256, on an offset table of \<open>C\<^sup>2\<close>
  records in which only the record of the pair \<open>(1, 0)\<close> as the specification numbers
  it, record \<open>C\<close>, has a window, of one id, the code looks the pair up in record 256:
  it finds an empty list, or no record at all when \<open>C\<^sup>2\<close> is at most 256.
\<close>

theorem query_path_fixed_grid:
  fixes np :: "('f::{linorder,plus}) numlib"
  shows
    "query_planner np (self \<lparr> nlist := C \<rparr>) c1 c2 query16 nprobe =
       query_planner np self c1 c2 query16 nprobe \<and>
     search np (self \<lparr> nlist := C \<rparr>) db files query_vector top_k nprobe max_difference
         batch_limit pruning_factor ord =
       search np self db files query_vector top_k nprobe max_difference batch_limit
         pruning_factor ord \<and>
     query_planner np self c1 c2 query16 nprobe =
       bind_err
         (top_sorted np
            (combined_distances_flat
               (map (\<lambda>b. cosine np (take (subspace_dim self) query16) b) c1)
               (map (\<lambda>b. cosine np (drop (subspace_dim self) query16) b) c2))
            (nprobe * nprobe))
         (\<lambda>ks. if list_all (\<lambda>k. k < 256 * 256) ks
                then Inr (map (\<lambda>k. (k div 256, k mod 256)) ks) else Inl IndexError) \<and>
     (\<forall>ps. query_planner np self c1 c2 query16 nprobe = Inr ps \<longrightarrow>
           set ps \<subseteq> {0..<256} \<times> {0..<256}) \<and>
     (load_index_inverted_lists lfiles keys = Inr il \<and> (i, j) \<in> set keys \<longrightarrow>
        i * 256 + j < length (index_offsets_bin lfiles) \<and>
        map_of il (i, j) = Some (record_window lfiles (i * 256 + j)) \<and>
        map_of il (i, j) = Some (spec_offset_lookup 256 lfiles (i, j))) \<and>
     ((i, j) \<in> set keys \<and> \<not> i * 256 + j < length (index_offsets_bin lfiles) \<longrightarrow>
        (\<exists>e. load_index_inverted_lists lfiles keys = Inl e)) \<and>
     (i * 256 + j = spec_record C (i, j) \<longleftrightarrow> i = 0 \<or> C = 256) \<and>
     (argpartition_contract (argpartition np) \<and> argsort_contract (argsort np) \<and>
      length c1 = C \<and> length c2 = C \<and> 2 \<le> C \<and>
      (\<forall>a < C. \<forall>b < C. (a, b) \<noteq> (1, 0) \<longrightarrow>
         combined_distance np c1 c2 (take (subspace_dim self) (map (float16 np) query_vector))
           (drop (subspace_dim self) (map (float16 np) query_vector)) (1, 0)
         < combined_distance np c1 c2 (take (subspace_dim self) (map (float16 np) query_vector))
             (drop (subspace_dim self) (map (float16 np) query_vector)) (a, b)) \<longrightarrow>
        query_planner np self c1 c2 (map (float16 np) query_vector) 1 =
          (if C < 256 * 256 then Inr [(C div 256, C mod 256)] else Inl IndexError) \<and>
        (query_planner np self c1 c2 (map (float16 np) query_vector) 1 = Inr [(1, 0)]
           \<longleftrightarrow> C = 256) \<and>
        (C < 256 \<and> centroids_pkl files = (Some c1, Some c2) \<longrightarrow>
           search np self db files query_vector top_k 1 max_difference batch_limit
             pruning_factor ord = Inl IndexError)) \<and>
     (length s1 = 1 \<and> length s2 = 1 \<and> 1 \<le> nprobe \<longrightarrow>
        query_planner np self s1 s2 query16 nprobe = Inl ValueError) \<and>
     (2 \<le> C \<and> C \<noteq> 256 \<longrightarrow>
        load_index_inverted_lists
          \<lparr> centroids_pkl = cs, index_offsets_bin = (replicate (C * C) (0, 0))[C := (0, 1)],
            concatenated_values_bin = [v] \<rparr> [(1, 0)] =
          (if 256 < C * C then Inr [((1, 0), [])] else Inl IndexError) \<and>
        spec_offset_lookup C
          \<lparr> centroids_pkl = cs, index_offsets_bin = (replicate (C * C) (0, 0))[C := (0, 1)],
            concatenated_values_bin = [v] \<rparr> (1, 0) = [v])"
proof -
  let ?q = "map (float16 np) query_vector"
  have a: "query_planner np (self \<lparr> nlist := C \<rparr>) c1 c2 query16 nprobe =
           query_planner np self c1 c2 query16 nprobe"
    by (rule nlist_planner)
  have b: "search np (self \<lparr> nlist := C \<rparr>) db files query_vector top_k nprobe max_difference
             batch_limit pruning_factor ord =
           search np self db files query_vector top_k nprobe max_difference batch_limit
             pruning_factor ord"
    by (rule nlist_search)
  have c: "query_planner np self c1 c2 query16 nprobe =
       bind_err
         (top_sorted np
            (combined_distances_flat
               (map (\<lambda>b. cosine np (take (subspace_dim self) query16) b) c1)
               (map (\<lambda>b. cosine np (drop (subspace_dim self) query16) b) c2))
            (nprobe * nprobe))
         (\<lambda>ks. if list_all (\<lambda>k. k < 256 * 256) ks
                then Inr (map (\<lambda>k. (k div 256, k mod 256)) ks) else Inl IndexError)"
    using query_planner_decode [of np self c1 c2 query16 nprobe] by simp
  have d: "\<forall>ps. query_planner np self c1 c2 query16 nprobe = Inr ps \<longrightarrow>
           set ps \<subseteq> {0..<256} \<times> {0..<256}"
    unfolding query_planner_decode
    by (auto simp: bind_err_def list_all_iff less_mult_imp_div_less split: sum.splits if_splits)
  have e: "load_index_inverted_lists lfiles keys = Inr il \<and> (i, j) \<in> set keys \<longrightarrow>
        i * 256 + j < length (index_offsets_bin lfiles) \<and>
        map_of il (i, j) = Some (record_window lfiles (i * 256 + j)) \<and>
        map_of il (i, j) = Some (spec_offset_lookup 256 lfiles (i, j))"
  proof
    assume h: "load_index_inverted_lists lfiles keys = Inr il \<and> (i, j) \<in> set keys"
    then have "load_loop lfiles keys [] = Inr il" by (simp add: load_index_inverted_lists_def)
    from load_loop_spec [OF this] h
    obtain l where l: "load_key lfiles (i, j) = Inr l" "map_of il (i, j) = Some l" by blast
    from load_key_Inr [OF l(1)] l(2)
    show "i * 256 + j < length (index_offsets_bin lfiles) \<and>
        map_of il (i, j) = Some (record_window lfiles (i * 256 + j)) \<and>
        map_of il (i, j) = Some (spec_offset_lookup 256 lfiles (i, j))"
      by (simp add: spec_offset_lookup_def spec_record_def)
  qed
  have f: "(i, j) \<in> set keys \<and> \<not> i * 256 + j < length (index_offsets_bin lfiles) \<longrightarrow>
        (\<exists>e. load_index_inverted_lists lfiles keys = Inl e)"
    using load_loop_raises [of "(i, j)" keys lfiles IndexError "[]"] load_key_no_record [of i j lfiles]
    by (auto simp: load_index_inverted_lists_def)
  have g: "i * 256 + j = spec_record C (i, j) \<longleftrightarrow> i = 0 \<or> C = 256"
    by (auto simp: spec_record_def)
  have h: "query_planner np self c1 c2 ?q 1 =
          (if C < 256 * 256 then Inr [(C div 256, C mod 256)] else Inl IndexError) \<and>
        (query_planner np self c1 c2 ?q 1 = Inr [(1, 0)] \<longleftrightarrow> C = 256) \<and>
        (C < 256 \<and> centroids_pkl files = (Some c1, Some c2) \<longrightarrow>
           search np self db files query_vector top_k 1 max_difference batch_limit
             pruning_factor ord = Inl IndexError)"
    if ap: "argpartition_contract (argpartition np)" and srt: "argsort_contract (argsort np)"
      and l1: "length c1 = C" and l2: "length c2 = C" and C2: "2 \<le> C"
      and best: "\<forall>a < C. \<forall>b < C. (a, b) \<noteq> (1, 0) \<longrightarrow>
         combined_distance np c1 c2 (take (subspace_dim self) ?q) (drop (subspace_dim self) ?q) (1, 0)
         < combined_distance np c1 c2 (take (subspace_dim self) ?q)
             (drop (subspace_dim self) ?q) (a, b)"
  proof -
    have p: "query_planner np self c1 c2 ?q 1 =
               (if C < 65536 then Inr [(C div 256, C mod 256)] else Inl IndexError)"
      by (rule planner_pair_1_0 [OF ap srt l1 l2 C2 best])
    have iff: "query_planner np self c1 c2 ?q 1 = Inr [(1, 0)] \<longleftrightarrow> C = 256"
    proof
      assume "query_planner np self c1 c2 ?q 1 = Inr [(1, 0)]"
      then have "C div 256 = 1" "C mod 256 = 0" using p by (auto split: if_splits)
      then show "C = 256" using div_mult_mod_eq [of C 256] by simp
    next
      assume "C = 256"
      then show "query_planner np self c1 c2 ?q 1 = Inr [(1, 0)]" using p by simp
    qed
    have s: "search np self db files query_vector top_k 1 max_difference batch_limit
               pruning_factor ord = Inl IndexError"
      if "C < 256" "centroids_pkl files = (Some c1, Some c2)"
      by (rule search_index_error [OF ap srt that(2) l1 l2 C2 that(1) best])
    show ?thesis using p iff s by simp
  qed
  have k: "length s1 = 1 \<and> length s2 = 1 \<and> 1 \<le> nprobe \<longrightarrow>
        query_planner np self s1 s2 query16 nprobe = Inl ValueError"
    using planner_single_centroid [of s1 s2 nprobe np self query16] by blast
  have m: "2 \<le> C \<and> C \<noteq> 256 \<longrightarrow>
        load_index_inverted_lists
          \<lparr> centroids_pkl = cs, index_offsets_bin = (replicate (C * C) (0, 0))[C := (0, 1)],
            concatenated_values_bin = [v] \<rparr> [(1, 0)] =
          (if 256 < C * C then Inr [((1, 0), [])] else Inl IndexError) \<and>
        spec_offset_lookup C
          \<lparr> centroids_pkl = cs, index_offsets_bin = (replicate (C * C) (0, 0))[C := (0, 1)],
            concatenated_values_bin = [v] \<rparr> (1, 0) = [v]"
    using lookup_pair_1_0 [of C cs v] by blast
  from a b c d e f g h k m show ?thesis by blast
qed

text \<open>The theorem of C10 for \<open>C = 2\<close>: the centroids \<open>[-1]\<close>, \<open>[1]\<close> on side 1 and
  \<open>[1]\<close>, \<open>[-1]\<close> on side 2, and the query \<open>[1, 1]\<close>. The combined distances are
  \<open>2, 4, 0, 2\<close> in row-major order, the smallest at flat index 2, the pair \<open>(1, 0)\<close>
  of the specification, which the code decodes as \<open>(0, 2)\<close>.\<close>

theorem query_path_fixed_grid_witness:
  "argpartition_contract (argpartition ref_np) \<and> argsort_contract (argsort ref_np) \<and>
   list_all (\<lambda>p. p = (1, 0) \<or>
               combined_distance ref_np [[-1], [1]] [[1], [-1]] [1] [1] (1, 0)
               < combined_distance ref_np [[-1], [1]] [[1], [-1]] [1] [1] p)
     [(0, 0), (0, 1), (1, 0), (1, 1)] \<and>
   query_planner ref_np (ex_index \<lparr> nlist := 2 \<rparr>) [[-1], [1]] [[1], [-1]] [1, 1] 1 =
     query_planner ref_np ex_index [[-1], [1]] [[1], [-1]] [1, 1] 1 \<and>
   query_planner ref_np ex_index [[-1], [1]] [[1], [-1]] [1, 1] 1 = Inr [(0, 2)] \<and>
   search ref_np ex_index ex_db
     \<lparr> centroids_pkl = (Some [[-1], [1]], Some [[1], [-1]]),
       index_offsets_bin = [(0, 0), (0, 0), (0, 1), (0, 0)],
       concatenated_values_bin = [7] \<rparr> [1, 1] 5 1 10000 2000 2250 [] = Inl IndexError \<and>
   load_index_inverted_lists
     \<lparr> centroids_pkl = (Some [[-1], [1]], Some [[1], [-1::real]]),
       index_offsets_bin = [(0, 0), (0, 0), (0, 1), (0, 0)],
       concatenated_values_bin = [7] \<rparr> [(0, 2)] = Inr [((0, 2), [7])] \<and>
   load_index_inverted_lists
     \<lparr> centroids_pkl = (Some [[-1], [1]], Some [[1], [-1::real]]),
       index_offsets_bin = [(0, 0), (0, 0), (0, 1), (0, 0)],
       concatenated_values_bin = [7] \<rparr> [(1, 0)] = Inl IndexError \<and>
   spec_offset_lookup 2
     \<lparr> centroids_pkl = (Some [[-1], [1]], Some [[1], [-1::real]]),
       index_offsets_bin = [(0, 0), (0, 0), (0, 1), (0, 0)],
       concatenated_values_bin = [7] \<rparr> (1, 0) = [7] \<and>
   query_planner ref_np ex_index [[1]] [[1]] [1, 1] 1 = Inl ValueError"
proof -
  let ?F = "\<lparr> centroids_pkl = (Some [[-1], [1]], Some [[1], [-1::real]]),
       index_offsets_bin = [(0, 0), (0, 0), (0, 1), (0, 0)],
       concatenated_values_bin = [7] \<rparr>"
  have q: "map (float16 ref_np) [1, 1] = [1, 1]" by (simp add: ref_np_def)
  have r: "(replicate (2 * 2) (0, 0))[2 := (0, 1)] = [(0, 0), (0, 0), (0, 1), (0, 0::int)]"
    by (simp add: numeral_Bit0 numeral_2_eq_2)
  have sd: "subspace_dim ex_index = 1" by (simp add: ex_index_def)
  have D: "combined_distance ref_np [[-1], [1]] [[1], [-1]] [1] [1] (a, b) =
             (1 - hd ([[-1], [1]] ! a)) + (1 - hd ([[1], [-1]] ! b))"
    if "a < 2" "b < 2" for a b
    using that
    by (auto simp: combined_distance_def ref_np_def pm_cosine_def less_2_cases_iff)
  have best: "\<forall>a < 2. \<forall>b < 2. (a, b) \<noteq> (1, 0) \<longrightarrow>
         combined_distance ref_np [[-1], [1]] [[1], [-1]] [1] [1] (1, 0)
         < combined_distance ref_np [[-1], [1]] [[1], [-1]] [1] [1] (a, b)"
    by (auto simp: D less_2_cases_iff)
  have la: "list_all (\<lambda>p. p = (1, 0) \<or>
               combined_distance ref_np [[-1], [1]] [[1], [-1]] [1] [1] (1, 0)
               < combined_distance ref_np [[-1], [1]] [[1], [-1]] [1] [1] p)
     [(0, 0), (0, 1), (1, 0), (1, 1)]"
    by (simp add: D)
  note T = query_path_fixed_grid [where np = ref_np and self = ex_index and C = 2
      and ?c1.0 = "[[-1], [1]]" and ?c2.0 = "[[1], [-1]]" and ?query16.0 = "[1, 1]" and nprobe = 1
      and db = ex_db and files = ?F and query_vector = "[1, 1]" and top_k = 5
      and max_difference = 10000 and batch_limit = 2000 and pruning_factor = 2250 and ord = "[]"
      and lfiles = ?F and keys = "[(0, 2)]" and il = "[((0, 2), [7])]" and i = 0 and j = 2
      and ?s1.0 = "[[1]]" and ?s2.0 = "[[1]]"
      and cs = "(Some [[-1], [1]], Some [[1], [-1]])" and v = 7, unfolded q sd r, simplified]
  have hyp: "argpartition_contract (argpartition ref_np) \<and> argsort_contract (argsort ref_np)"
    using ref_np_contracts(1,2) by simp
  have ld: "load_index_inverted_lists ?F [(0, 2)] = Inr [((0, 2), [7])]"
    by (simp add: load_index_inverted_lists_def load_key_def slice_def)
  show ?thesis
    using T hyp best la ld by simp blast
qed

subsection \<open>\<^verbatim>\<open>train\<close> followed by \<^verbatim>\<open>add\<close>\<close>

lemma np_argmin_Inr: "row \<noteq> [] \<Longrightarrow> np_argmin row = Inr (argmin_index row)"
  by (simp add: np_argmin_def)

lemma nearest_argmin_index:
  assumes "row \<noteq> []"
  shows "nearest row (argmin_index row)"
proof -
  let ?P = "\<lambda>x. x \<noteq> Min (set row)"
  let ?a = "argmin_index row"
  have mem: "Min (set row) \<in> set row" using assms by (intro Min_in) simp_all
  have "takeWhile ?P row \<noteq> row" using mem by (simp add: takeWhile_eq_all_conv)
  then have lt: "?a < length row"
    unfolding argmin_index_def
    by (metis length_takeWhile_le le_neq_implies_less takeWhile_eq_take take_all order_refl)
  have at: "row ! ?a = Min (set row)"
    using nth_length_takeWhile [of ?P row] lt by (simp add: argmin_index_def)
  have le: "row ! ?a \<le> row ! j" if "j < length row" for j
    using that by (simp add: at)
  have less: "row ! ?a < row ! j" if "j < ?a" for j
  proof -
    have jl: "j < length (takeWhile ?P row)" using that by (simp add: argmin_index_def)
    then have "takeWhile ?P row ! j \<in> set (takeWhile ?P row)" by (rule nth_mem)
    then have "?P (takeWhile ?P row ! j)" by (rule set_takeWhileD [THEN conjunct2])
    then have "row ! j \<noteq> Min (set row)" using takeWhile_nth [OF jl] by simp
    moreover have "Min (set row) \<le> row ! j" using that lt by simp
    ultimately show ?thesis using at by simp
  qed
  show ?thesis using lt le less by (simp add: nearest_def list_all_iff)
qed

lemma nearest_unique:
  assumes "nearest ds a" "nearest ds b"
  shows "a = b"
proof (rule ccontr)
  assume "a \<noteq> b"
  then consider "a < b" | "b < a" by linarith
  then show False
  proof cases
    case 1
    then have "ds ! b < ds ! a" using assms(2) by (simp add: nearest_def list_all_iff)
    moreover have "ds ! a \<le> ds ! b" using assms by (simp add: nearest_def list_all_iff)
    ultimately show False by simp
  next
    case 2
    then have "ds ! a < ds ! b" using assms(1) by (simp add: nearest_def list_all_iff)
    moreover have "ds ! b \<le> ds ! a" using assms by (simp add: nearest_def list_all_iff)
    ultimately show False by simp
  qed
qed

lemma nearest_iff_argmin: "ds \<noteq> [] \<Longrightarrow> nearest ds a \<longleftrightarrow> a = argmin_index ds"
  using nearest_argmin_index nearest_unique by blast

lemma update_fresh: "k \<notin> fst ` set d \<Longrightarrow> AList.update k v d = d @ [(k, v)]"
  by (induction d) auto

lemma fold_update_fresh:
  "distinct ks \<Longrightarrow> set ks \<inter> fst ` set d = {} \<Longrightarrow>
   fold (\<lambda>key d. AList.update key [] d) ks d = d @ map (\<lambda>k. (k, [])) ks"
proof (induction ks arbitrary: d)
  case Nil
  then show ?case by simp
next
  case (Cons k ks)
  have u: "AList.update k [] d = d @ [(k, [])]" using Cons.prems by (intro update_fresh) auto
  have "set ks \<inter> fst ` set (d @ [(k, [])]) = {}" using Cons.prems by auto
  from Cons.IH [OF _ this] Cons.prems(1) show ?case by (simp add: u)
qed

lemma grid_keys_product: "grid_keys n = List.product [0..<n] [0..<n]"
  by (simp add: grid_keys_def product_concat_map)

lemma grid_keys_facts:
  "distinct (grid_keys n)" "set (grid_keys n) = {0..<n} \<times> {0..<n}"
  by (simp_all add: grid_keys_product distinct_product)

lemma assign_batch_append:
  "assign_batch d (xs @ ys) =
     (case assign_batch d xs of Inl e \<Rightarrow> Inl e | Inr d' \<Rightarrow> assign_batch d' ys)"
  by (induction d xs rule: assign_batch.induct) (auto split: option.splits)

lemma assign_batch_spec:
  assumes "\<forall>p \<in> set xs. snd p \<in> fst ` set d"
  shows "\<exists>d'. assign_batch d xs = Inr d' \<and> map fst d' = map fst d \<and>
           (\<forall>key l. map_of d key = Some l \<longrightarrow>
              map_of d' key = Some (l @ map fst (filter (\<lambda>p. snd p = key) xs)))"
  using assms
proof (induction d xs rule: assign_batch.induct)
  case (1 d)
  then show ?case by simp
next
  case (2 d i key rest)
  from 2(2) have "key \<in> fst ` set d" by simp
  then obtain l where l: "map_of d key = Some l"
    by (metis domD dom_map_of_conv_image_fst)
  let ?d = "AList.update key (l @ [i]) d"
  have keys: "map fst ?d = map fst d" using \<open>key \<in> fst ` set d\<close> by (simp add: update_keys)
  then have dom: "fst ` set ?d = fst ` set d" by (metis set_map)
  have "\<forall>p \<in> set rest. snd p \<in> fst ` set ?d" using 2(2) dom by simp
  from 2(1) [OF l this]
  obtain d' where d': "assign_batch ?d rest = Inr d'" "map fst d' = map fst ?d"
    "\<forall>k m. map_of ?d k = Some m \<longrightarrow>
       map_of d' k = Some (m @ map fst (filter (\<lambda>p. snd p = k) rest))"
    by blast
  have "map_of d' k = Some (m @ map fst (filter (\<lambda>p. snd p = k) ((i, key) # rest)))"
    if "map_of d k = Some m" for k m
  proof (cases "k = key")
    case True
    then have "map_of ?d k = Some (l @ [i])" by (simp add: update_conv')
    from d'(3) [rule_format, OF this] show ?thesis using True that l by simp
  next
    case False
    then have "map_of ?d k = Some m" using that by (simp add: update_conv')
    from d'(3) [rule_format, OF this] show ?thesis using False by simp
  qed
  then show ?case using d'(1,2) keys l by simp
qed

lemma slice_nth_upt:
  "s \<le> e \<Longrightarrow> e \<le> length xs \<Longrightarrow> slice s e xs = map (\<lambda>i. xs ! i) [s..<e]"
  by (rule nth_equalityI) (simp_all add: slice_def)

lemma zip_upt_map: "zip [s..<s + length (map f [s..<e])] (map f [s..<e]) = map (\<lambda>i. (i, f i)) [s..<e]"
proof (cases "s \<le> e")
  case True
  then show ?thesis by (intro nth_equalityI) simp_all
next
  case False
  then show ?thesis by simp
qed

lemma add_batch_eq:
  fixes np :: "('f::linorder) numlib"
  assumes c: "centroids1 self = Some c1" "centroids2 self = Some c2"
    and ne: "c1 \<noteq> []" "c2 \<noteq> []"
    and s: "s \<le> length (vectors self)"
  shows "add_batch np self s d =
           assign_batch d
             (map (\<lambda>i. (i, (argmin_index (map (\<lambda>b. cosine np (take (subspace_dim self) (vectors self ! i)) b) c1),
                           argmin_index (map (\<lambda>b. cosine np (drop (subspace_dim self) (vectors self ! i)) b) c2))))
                  [s..<min (s + batch_size) (length (vectors self))])"
proof -
  let ?N = "length (vectors self)"
  let ?e = "min (s + batch_size) ?N"
  let ?sd = "subspace_dim self"
  let ?f1 = "\<lambda>i. argmin_index (map (\<lambda>b. cosine np (take ?sd (vectors self ! i)) b) c1)"
  let ?f2 = "\<lambda>i. argmin_index (map (\<lambda>b. cosine np (drop ?sd (vectors self ! i)) b) c2)"
  have se: "s \<le> ?e" "?e \<le> ?N" using s by simp_all
  have b1: "slice s ?e (map (take ?sd) (vectors self)) = map (\<lambda>i. take ?sd (vectors self ! i)) [s..<?e]"
    using slice_nth_upt [OF se(1), of "map (take ?sd) (vectors self)"] se(2) by simp
  have b2: "slice s ?e (map (drop ?sd) (vectors self)) = map (\<lambda>i. drop ?sd (vectors self ! i)) [s..<?e]"
    using slice_nth_upt [OF se(1), of "map (drop ?sd) (vectors self)"] se(2) by simp
  have a1: "map_err np_argmin (cdist np (map (\<lambda>i. take ?sd (vectors self ! i)) [s..<?e]) c1)
              = Inr (map ?f1 [s..<?e])"
  proof -
    have "map_err np_argmin (cdist np (map (\<lambda>i. take ?sd (vectors self ! i)) [s..<?e]) c1)
            = Inr (map argmin_index (cdist np (map (\<lambda>i. take ?sd (vectors self ! i)) [s..<?e]) c1))"
      using ne(1) by (intro map_err_Inr) (auto simp: cdist_def np_argmin_Inr)
    then show ?thesis by (simp add: cdist_def comp_def)
  qed
  have a2: "map_err np_argmin (cdist np (map (\<lambda>i. drop ?sd (vectors self ! i)) [s..<?e]) c2)
              = Inr (map ?f2 [s..<?e])"
  proof -
    have "map_err np_argmin (cdist np (map (\<lambda>i. drop ?sd (vectors self ! i)) [s..<?e]) c2)
            = Inr (map argmin_index (cdist np (map (\<lambda>i. drop ?sd (vectors self ! i)) [s..<?e]) c2))"
      using ne(2) by (intro map_err_Inr) (auto simp: cdist_def np_argmin_Inr)
    then show ?thesis by (simp add: cdist_def comp_def)
  qed
  have z: "zip (map ?f1 [s..<?e]) (map ?f2 [s..<?e]) = map (\<lambda>i. (?f1 i, ?f2 i)) [s..<?e]"
    by (simp add: zip_map_map zip_same_conv_map)
  show ?thesis
    unfolding add_batch_def Let_def c prod.case option.case b1 b2 a1 a2 sum.case z
    by (rule arg_cong [where f = "assign_batch d"]) (rule zip_upt_map)
qed

lemma ceil_div_facts:
  assumes "0 < (bs::nat)"
  shows "j < (N + bs - 1) div bs \<Longrightarrow> j * bs < N"
    and "N \<le> ((N + bs - 1) div bs) * bs"
proof -
  show "j * bs < N" if "j < (N + bs - 1) div bs"
  proof -
    from that have "Suc j \<le> (N + bs - 1) div bs" by simp
    then have "Suc j * bs \<le> N + bs - 1" using assms by (simp add: less_eq_div_iff_mult_less_eq)
    then show ?thesis using assms by simp
  qed
  show "N \<le> ((N + bs - 1) div bs) * bs"
  proof (rule ccontr)
    let ?m = "(N + bs - 1) div bs"
    assume "\<not> N \<le> ?m * bs"
    then have "Suc ?m * bs \<le> N + bs - 1" by simp
    then have "Suc ?m \<le> ?m" using assms by (simp add: less_eq_div_iff_mult_less_eq)
    then show False by simp
  qed
qed

lemma ranges_concat:
  assumes "0 < bs"
  shows "j \<le> (N + bs - 1) div bs \<Longrightarrow>
         concat (map (\<lambda>s. [s..<min (s + bs) N]) (map (\<lambda>k. k * bs) [0..<j])) = [0..<min (j * bs) N]"
proof (induction j)
  case 0
  then show ?case by simp
next
  case (Suc j)
  then have jl: "j * bs < N" using ceil_div_facts(1) [OF assms, of j N] by simp
  have "concat (map (\<lambda>s. [s..<min (s + bs) N]) (map (\<lambda>k. k * bs) [0..<Suc j])) =
        [0..<min (j * bs) N] @ [j * bs..<min (j * bs + bs) N]"
    using Suc by simp
  also have "\<dots> = [0..<j * bs] @ [j * bs..<min (j * bs + bs) N]" using jl by simp
  also have "\<dots> = [0..<min (j * bs + bs) N]"
  proof -
    obtain k where k: "min (j * bs + bs) N = j * bs + k"
      using jl by (metis le_add1 le_iff_add less_imp_le min.boundedI)
    show ?thesis unfolding k by (rule upt_add_eq_append [symmetric]) simp
  qed
  finally show ?case by (simp add: add.commute)
qed

lemma range_step_concat:
  "0 < bs \<Longrightarrow> concat (map (\<lambda>s. [s..<min (s + bs) N]) (range_step N bs)) = [0..<N]"
  using ranges_concat [of bs "(N + bs - 1) div bs" N] ceil_div_facts(2) [of bs N]
  by (simp add: range_step_def)

lemma range_step_le: "0 < bs \<Longrightarrow> s \<in> set (range_step N bs) \<Longrightarrow> s \<le> N"
  using ceil_div_facts(1) [of bs _ N] by (auto simp: range_step_def intro: less_imp_le)

lemma add_loop_eq:
  fixes np :: "('f::linorder) numlib"
  assumes c: "centroids1 self = Some c1" "centroids2 self = Some c2"
    and ne: "c1 \<noteq> []" "c2 \<noteq> []"
  shows "\<forall>s \<in> set starts. s \<le> length (vectors self) \<Longrightarrow>
         add_loop np self starts d =
           assign_batch d
             (map (\<lambda>i. (i, (argmin_index (map (\<lambda>b. cosine np (take (subspace_dim self) (vectors self ! i)) b) c1),
                           argmin_index (map (\<lambda>b. cosine np (drop (subspace_dim self) (vectors self ! i)) b) c2))))
                  (concat (map (\<lambda>s. [s..<min (s + batch_size) (length (vectors self))]) starts)))"
proof (induction starts arbitrary: d)
  case Nil
  then show ?case by simp
next
  case (Cons s starts)
  have s: "s \<le> length (vectors self)" using Cons.prems by simp
  show ?case
    using Cons.IH Cons.prems
    by (simp add: add_batch_eq [OF c ne s] assign_batch_append split: sum.splits)
qed

lemma batch_size_pos: "0 < batch_size"
  by (simp add: batch_size_def)

lemma map_of_grid_empty:
  "key \<in> set ks \<Longrightarrow> map_of (map (\<lambda>k. (k, [])) ks) key = Some []"
  by (induction ks) auto

lemma add_spec:
  fixes np :: "('f::linorder) numlib"
  assumes c: "centroids1 self = Some c1" "centroids2 self = Some c2"
    and l: "length c1 = n" "length c2 = n" and n: "0 < n"
    and d: "index_inverted_lists self = map (\<lambda>k. (k, [])) (grid_keys n)"
  shows "\<exists>d'. add np self = Inr (self \<lparr> index_inverted_lists := d' \<rparr>) \<and>
           map fst d' = grid_keys n \<and>
           (\<forall>a < n. \<forall>b < n. map_of d' (a, b) =
              Some (filter (\<lambda>i. nearest (map (\<lambda>b. cosine np (take (subspace_dim self) (vectors self ! i)) b) c1) a \<and>
                               nearest (map (\<lambda>b. cosine np (drop (subspace_dim self) (vectors self ! i)) b) c2) b)
                      [0..<length (vectors self)]))"
proof -
  let ?N = "length (vectors self)"
  let ?d1 = "\<lambda>i. map (\<lambda>b. cosine np (take (subspace_dim self) (vectors self ! i)) b) c1"
  let ?d2 = "\<lambda>i. map (\<lambda>b. cosine np (drop (subspace_dim self) (vectors self ! i)) b) c2"
  let ?asg = "\<lambda>i. (argmin_index (?d1 i), argmin_index (?d2 i))"
  let ?xs = "map (\<lambda>i. (i, ?asg i)) [0..<?N]"
  let ?d = "map (\<lambda>k. (k, []::nat list)) (grid_keys n)"
  have ne: "c1 \<noteq> []" "c2 \<noteq> []" using l n by auto
  have rne: "?d1 i \<noteq> []" "?d2 i \<noteq> []" for i using ne by simp_all
  have loop: "add_loop np self (range_step ?N batch_size) ?d = assign_batch ?d ?xs"
    using add_loop_eq [OF c ne, of "range_step ?N batch_size" np ?d]
      range_step_le [OF batch_size_pos] range_step_concat [OF batch_size_pos, of ?N]
    by simp
  have in_grid: "?asg i \<in> set (grid_keys n)" for i
  proof -
    have "nearest (?d1 i) (argmin_index (?d1 i))" "nearest (?d2 i) (argmin_index (?d2 i))"
      using rne by (simp_all add: nearest_argmin_index)
    then show ?thesis using l by (simp add: nearest_def grid_keys_facts)
  qed
  have "\<forall>p \<in> set ?xs. snd p \<in> fst ` set ?d"
    using in_grid by (auto simp: image_image)
  from assign_batch_spec [OF this]
  obtain d' where d': "assign_batch ?d ?xs = Inr d'" "map fst d' = map fst ?d"
    "\<forall>key l. map_of ?d key = Some l \<longrightarrow>
       map_of d' key = Some (l @ map fst (filter (\<lambda>p. snd p = key) ?xs))"
    by blast
  have res: "add np self = Inr (self \<lparr> index_inverted_lists := d' \<rparr>)"
    by (simp add: add_def d loop d'(1))
  have keys: "map fst d' = grid_keys n" using d'(2) by (simp add: comp_def)
  have lists: "map_of d' (a, b) =
                 Some (filter (\<lambda>i. nearest (?d1 i) a \<and> nearest (?d2 i) b) [0..<?N])"
    if "a < n" "b < n" for a b
  proof -
    have "(a, b) \<in> set (grid_keys n)" using that by (simp add: grid_keys_facts)
    then have "map_of ?d (a, b) = Some []" by (rule map_of_grid_empty)
    from d'(3) [rule_format, OF this]
    have "map_of d' (a, b) = Some (map fst (filter (\<lambda>p. snd p = (a, b)) ?xs))" by simp
    also have "map fst (filter (\<lambda>p. snd p = (a, b)) ?xs) = filter (\<lambda>i. ?asg i = (a, b)) [0..<?N]"
      by (simp add: filter_map comp_def)
    also have "\<dots> = filter (\<lambda>i. nearest (?d1 i) a \<and> nearest (?d2 i) b) [0..<?N]"
      using rne by (intro filter_cong) (auto simp: nearest_iff_argmin)
    finally show ?thesis .
  qed
  show ?thesis using res keys lists by blast
qed

text \<open>
  C7. Let the number of centroids a side be positive and at most the number of vectors
  (what scikit-learn asks for), the dimension even, and let the clustering return as
  many centres as asked. Then the constructor, \<open>train\<close> and \<open>add\<close> all return; the
  centroids are those of the clustering of the two halves; the mapping has the keys
  \<open>(i, j)\<close> in lexicographic order; the list of \<open>(a, b)\<close> holds exactly the ids of the
  vectors whose first half is nearest to centroid \<open>a\<close> of side 1 and whose second half
  is nearest to centroid \<open>b\<close> of side 2, under the cosine distance with ties going
  to the lowest centroid index, in ascending order; every id below \<open>N\<close> lies in the list
  of exactly one pair; and every list is ascending, without repetition, of ids below
  \<open>N\<close>. The batches of 500000 vectors that \<open>add\<close> works through are part of the model.
  The distances are values of a linear order: the not-a-number of a half that is all
  zeros is outside the model.
\<close>

theorem train_add_inverted_lists:
  fixes np :: "('f::linorder) numlib"
  assumes km: "kmeans_contract (kmeans np)"
    and nl: "0 < nl" "nl \<le> length vecs"
    and ev: "dimen mod 2 = 0"
  shows "\<exists>h0 h1 h2 c1 c2.
           init vecs nl dimen path = Inr h0 \<and> train np h0 = Inr h1 \<and> add np h1 = Inr h2 \<and>
           centroids1 h2 = Some c1 \<and> centroids2 h2 = Some c2 \<and>
           c1 = kmeans np nl (map (take (dimen div 2)) vecs) \<and>
           c2 = kmeans np nl (map (drop (dimen div 2)) vecs) \<and>
           length c1 = nl \<and> length c2 = nl \<and>
           map fst (index_inverted_lists h2) = grid_keys nl \<and>
           (\<forall>a < nl. \<forall>b < nl. map_of (index_inverted_lists h2) (a, b) =
              Some (filter (\<lambda>i. nearest (map (\<lambda>b. cosine np (take (dimen div 2) (vecs ! i)) b) c1) a \<and>
                               nearest (map (\<lambda>b. cosine np (drop (dimen div 2) (vecs ! i)) b) c2) b)
                      [0..<length vecs])) \<and>
           (\<forall>i < length vecs. \<exists>!key. key \<in> set (grid_keys nl) \<and>
              (\<exists>ids. map_of (index_inverted_lists h2) key = Some ids \<and> i \<in> set ids)) \<and>
           (\<forall>key ids. key \<in> set (grid_keys nl) \<longrightarrow>
              map_of (index_inverted_lists h2) key = Some ids \<longrightarrow>
              sorted ids \<and> distinct ids \<and> set ids \<subseteq> {0..<length vecs})"
proof -
  let ?sd = "dimen div 2"
  define h0 :: "'f IMIIndex" where
    "h0 = \<lparr> nlist = nl, dimension = dimen, subspace_dim = ?sd, vectors = vecs,
            centroids1 = None, centroids2 = None, index_inverted_lists = [],
            index_path = path \<rparr>"
  define c1 where "c1 = kmeans np nl (map (take ?sd) vecs)"
  define c2 where "c2 = kmeans np nl (map (drop ?sd) vecs)"
  define h1 where "h1 = h0 \<lparr> centroids1 := Some c1, centroids2 := Some c2,
                               index_inverted_lists := map (\<lambda>k. (k, [])) (grid_keys nl) \<rparr>"
  have i0: "init vecs nl dimen path = Inr h0" using ev by (simp add: init_def h0_def)
  have fold: "fold (\<lambda>key d. AList.update key [] d) (grid_keys nl) [] =
              map (\<lambda>k. (k, [])) (grid_keys nl)"
    using fold_update_fresh [OF grid_keys_facts(1), of nl "[]"] by simp
  have t1: "train np h0 = Inr h1"
    using nl by (simp add: train_def h0_def h1_def c1_def c2_def fold)
  have lc: "length c1 = nl" "length c2 = nl"
    using km nl by (simp_all add: kmeans_contract_def c1_def c2_def)
  have f: "centroids1 h1 = Some c1" "centroids2 h1 = Some c2"
    "index_inverted_lists h1 = map (\<lambda>k. (k, [])) (grid_keys nl)"
    "subspace_dim h1 = ?sd" "vectors h1 = vecs"
    by (simp_all add: h1_def h0_def)
  from add_spec [OF f(1,2) lc nl(1) f(3), of np]
  obtain d' where d': "add np h1 = Inr (h1 \<lparr> index_inverted_lists := d' \<rparr>)"
    "map fst d' = grid_keys nl"
    "\<forall>a < nl. \<forall>b < nl. map_of d' (a, b) =
       Some (filter (\<lambda>i. nearest (map (\<lambda>b. cosine np (take ?sd (vecs ! i)) b) c1) a \<and>
                        nearest (map (\<lambda>b. cosine np (drop ?sd (vecs ! i)) b) c2) b)
               [0..<length vecs])"
    unfolding f(4,5) by blast
  define h2 where "h2 = h1 \<lparr> index_inverted_lists := d' \<rparr>"
  let ?n1 = "\<lambda>i a. nearest (map (\<lambda>b. cosine np (take ?sd (vecs ! i)) b) c1) a"
  let ?n2 = "\<lambda>i b. nearest (map (\<lambda>b. cosine np (drop ?sd (vecs ! i)) b) c2) b"
  have ne: "map (\<lambda>b. cosine np (take ?sd (vecs ! i)) b) c1 \<noteq> []"
    "map (\<lambda>b. cosine np (drop ?sd (vecs ! i)) b) c2 \<noteq> []" for i
    using lc nl(1) by auto
  have lists: "map_of d' key = Some (filter (\<lambda>i. ?n1 i (fst key) \<and> ?n2 i (snd key)) [0..<length vecs])"
    if kin: "key \<in> set (grid_keys nl)" for key
  proof -
    obtain a b where k: "key = (a, b)" by (cases key)
    with kin have "a < nl" "b < nl" by (simp_all add: grid_keys_facts)
    with d'(3) show ?thesis by (simp add: k)
  qed
  have one: "\<exists>!key. key \<in> set (grid_keys nl) \<and> (\<exists>ids. map_of d' key = Some ids \<and> i \<in> set ids)"
    if i: "i < length vecs" for i
  proof -
    let ?a = "argmin_index (map (\<lambda>b. cosine np (take ?sd (vecs ! i)) b) c1)"
    let ?b = "argmin_index (map (\<lambda>b. cosine np (drop ?sd (vecs ! i)) b) c2)"
    have na: "?n1 i ?a" "?n2 i ?b" using ne by (simp_all add: nearest_argmin_index)
    then have g: "(?a, ?b) \<in> set (grid_keys nl)" using lc by (simp add: nearest_def grid_keys_facts)
    have ex: "(?a, ?b) \<in> set (grid_keys nl) \<and>
              (\<exists>ids. map_of d' (?a, ?b) = Some ids \<and> i \<in> set ids)"
      using g lists [OF g] na i by simp
    have un: "key = (?a, ?b)"
      if "key \<in> set (grid_keys nl) \<and> (\<exists>ids. map_of d' key = Some ids \<and> i \<in> set ids)" for key
    proof -
      from that lists [of key] have "?n1 i (fst key)" "?n2 i (snd key)" by auto
      then have "fst key = ?a" "snd key = ?b" using na nearest_unique by blast+
      then show ?thesis by (simp add: prod_eq_iff)
    qed
    show ?thesis using ex un by blast
  qed
  have sorted: "sorted ids \<and> distinct ids \<and> set ids \<subseteq> {0..<length vecs}"
    if "key \<in> set (grid_keys nl)" "map_of d' key = Some ids" for key ids
    using lists [OF that(1)] that(2) by (auto simp: sorted_wrt_filter)
  have "init vecs nl dimen path = Inr h0 \<and> train np h0 = Inr h1 \<and> add np h1 = Inr h2 \<and>
        centroids1 h2 = Some c1 \<and> centroids2 h2 = Some c2 \<and>
        c1 = kmeans np nl (map (take ?sd) vecs) \<and>
        c2 = kmeans np nl (map (drop ?sd) vecs) \<and>
        length c1 = nl \<and> length c2 = nl \<and>
        map fst (index_inverted_lists h2) = grid_keys nl \<and>
        (\<forall>a < nl. \<forall>b < nl. map_of (index_inverted_lists h2) (a, b) =
           Some (filter (\<lambda>i. ?n1 i a \<and> ?n2 i b) [0..<length vecs])) \<and>
        (\<forall>i < length vecs. \<exists>!key. key \<in> set (grid_keys nl) \<and>
           (\<exists>ids. map_of (index_inverted_lists h2) key = Some ids \<and> i \<in> set ids)) \<and>
        (\<forall>key ids. key \<in> set (grid_keys nl) \<longrightarrow>
           map_of (index_inverted_lists h2) key = Some ids \<longrightarrow>
           sorted ids \<and> distinct ids \<and> set ids \<subseteq> {0..<length vecs})"
    using i0 t1 d'(1,2,3) lc one sorted f(1,2) c1_def c2_def by (simp add: h2_def)
  then show ?thesis by blast
qed

text \<open>The theorem of C7 for four vectors of dimension 2 and two centroids a side.
  The two centroids of side 1 are equal, so that every first half is at the same
  distance of both and goes to centroid 0.\<close>

theorem train_add_inverted_lists_witness:
  "kmeans_contract (kmeans ref_np) \<and> (0::nat) < 2 \<and>
   (2::nat) \<le> length [[1, 1], [1, -1], [-1, 1], [-1, -1::real]] \<and> (2::nat) mod 2 = 0 \<and>
   (\<exists>h0 h1 h2.
      init [[1, 1], [1, -1], [-1, 1], [-1, -1]] 2 2 None = Inr h0 \<and>
      train ref_np h0 = Inr h1 \<and> add ref_np h1 = Inr h2 \<and>
      centroids1 h2 = Some [[1], [1]] \<and> centroids2 h2 = Some [[1], [-1]] \<and>
      map fst (index_inverted_lists h2) = [(0, 0), (0, 1), (1, 0), (1, 1)] \<and>
      map_of (index_inverted_lists h2) (0, 0) = Some [0, 2] \<and>
      map_of (index_inverted_lists h2) (0, 1) = Some [1, 3] \<and>
      map_of (index_inverted_lists h2) (1, 0) = Some [] \<and>
      map_of (index_inverted_lists h2) (1, 1) = Some [])"
proof -
  let ?vecs = "[[1, 1], [1, -1], [-1, 1], [-1, -1::real]]"
  have u4: "[0..<4] = [0, 1, 2, 3::nat]" by code_simp
  have u2: "[0..<2] = [0, 1::nat]" by code_simp
  have g: "grid_keys 2 = [(0, 0), (0, 1), (1, 0), (1, 1)]"
    by (simp add: grid_keys_def u2)
  have k: "kmeans ref_np 2 (map (take (2 div 2)) ?vecs) = [[1], [1]]"
    "kmeans ref_np 2 (map (drop (2 div 2)) ?vecs) = [[1], [-1]]"
    by (simp_all add: ref_np_def)
  have c: "cosine ref_np = pm_cosine" by (simp add: ref_np_def)
  have n: "nearest [a, b] 0 \<longleftrightarrow> a \<le> b" "nearest [a, b] (Suc 0) \<longleftrightarrow> b < a" for a b :: real
    by (auto simp: nearest_def u2)
  from train_add_inverted_lists [OF ref_np_contracts(3), of 2 ?vecs 2 None]
  obtain h0 h1 h2 where h:
    "init ?vecs 2 2 None = Inr h0" "train ref_np h0 = Inr h1" "add ref_np h1 = Inr h2"
    "centroids1 h2 = Some [[1], [1]]" "centroids2 h2 = Some [[1], [-1]]"
    "map fst (index_inverted_lists h2) = grid_keys 2"
    "\<forall>a < 2. \<forall>b < 2. map_of (index_inverted_lists h2) (a, b) =
        Some (filter (\<lambda>i. nearest (map (\<lambda>b. cosine ref_np (take (2 div 2) (?vecs ! i)) b) [[1], [1]]) a \<and>
                         nearest (map (\<lambda>b. cosine ref_np (drop (2 div 2) (?vecs ! i)) b) [[1], [-1]]) b)
                [0..<length ?vecs])"
    unfolding k by auto
  have l: "map_of (index_inverted_lists h2) (0, 0) = Some [0, 2]"
    "map_of (index_inverted_lists h2) (0, 1) = Some [1, 3]"
    "map_of (index_inverted_lists h2) (1, 0) = Some []"
    "map_of (index_inverted_lists h2) (1, 1) = Some []"
    using h(7) by (simp_all add: c pm_cosine_def u4 n)
  show ?thesis
    using h(1-6) l ref_np_contracts(3) by (simp add: g)
qed

subsection \<open>\<^verbatim>\<open>restructure_pickle\<close>\<close>

lemma grid_rows: "concat (map (\<lambda>i. [i * n..<i * n + n]) [0..<m]) = [0..<m * n]"
proof (induction m)
  case 0
  then show ?case by simp
next
  case (Suc m)
  have "[0..<m * n + n] = [0..<m * n] @ [m * n..<m * n + n]" by (rule upt_add_eq_append) simp
  then show ?case using Suc by (simp add: add.commute)
qed

lemma grid_keys_index: "map (\<lambda>p. fst p * n + snd p) (grid_keys n) = [0..<n * n]"
proof -
  have "map (\<lambda>p. fst p * n + snd p) (grid_keys n) =
        concat (map (\<lambda>i. map (\<lambda>j. j + i * n) [0..<n]) [0..<n])"
    by (simp add: grid_keys_def map_concat comp_def add.commute)
  also have "\<dots> = concat (map (\<lambda>i. [i * n..<i * n + n]) [0..<n])"
    by (simp add: map_add_upt add.commute)
  also have "\<dots> = [0..<n * n]" by (rule grid_rows)
  finally show ?thesis .
qed

lemma grid_keys_length: "length (grid_keys n) = n * n"
  using arg_cong [OF grid_keys_index [of n], of length] by simp

lemma grid_keys_nth:
  assumes "k < n * n"
  shows "grid_keys n ! k = (k div n, k mod n)"
proof -
  have n0: "0 < n" using assms by (cases n) auto
  have kl: "k < length (grid_keys n)" using assms by (simp add: grid_keys_length)
  then have mem: "grid_keys n ! k \<in> set (grid_keys n)" by (rule nth_mem)
  have "map (\<lambda>p. fst p * n + snd p) (grid_keys n) ! k = k"
    using assms by (simp add: grid_keys_index)
  then have e: "fst (grid_keys n ! k) * n + snd (grid_keys n ! k) = k" using kl by simp
  define a where "a = fst (grid_keys n ! k)"
  define b where "b = snd (grid_keys n ! k)"
  have b: "b < n" using mem by (auto simp: grid_keys_facts b_def)
  have k: "k = b + a * n" using e by (simp add: a_def b_def)
  have "k div n = a" "k mod n = b" using b unfolding k by simp_all
  then show ?thesis by (simp add: prod_eq_iff a_def b_def)
qed

lemma table_length: "length (spec_offset_table s ls) = length ls"
  by (induction ls arbitrary: s) simp_all

lemma table_nth:
  "k < length ls \<Longrightarrow>
   spec_offset_table s ls ! k = (s + length (concat (take k ls)), length (ls ! k))"
proof (induction ls arbitrary: s k)
  case Nil
  then show ?case by simp
next
  case (Cons l ls)
  then show ?case by (cases k) simp_all
qed

lemma restructure_loop_length:
  "restructure_loop al cv offs = Inr (cv', offs') \<Longrightarrow> length offs' = length offs"
proof (induction al arbitrary: cv offs)
  case Nil
  then show ?case by simp
next
  case (Cons a al)
  obtain key val where a: "a = (key, val)" by (cases a)
  from Cons.prems obtain s l where
    "restructure_loop al (cv @ val) (offs[fst key * 256 + snd key := (s, l)]) = Inr (cv', offs')"
    by (auto simp: a Let_def split: if_splits sum.splits)
  from Cons.IH [OF this] show ?case by simp
qed

lemma restructure_loop_spec:
  assumes "map (\<lambda>p. fst (fst p) * 256 + snd (fst p)) al = [m..<m + length al]"
    and "m + length al \<le> length offs"
    and "int (length cv + length (concat (map snd al))) \<le> int32_max"
  shows "restructure_loop al cv offs =
           Inr (cv @ concat (map snd al),
                take m offs @ map (\<lambda>(s, l). (int s, int l)) (spec_offset_table (length cv) (map snd al))
                  @ drop (m + length al) offs)"
  using assms
proof (induction al arbitrary: cv offs m)
  case Nil
  then show ?case by simp
next
  case (Cons a al)
  obtain key val where a: "a = (key, val)" by (cases a)
  have u: "[m..<m + length (a # al)] = m # [Suc m..<Suc m + length al]"
    by (subst upt_rec) simp
  from Cons.prems(1) have idx: "fst key * 256 + snd key = m"
    and rest: "map (\<lambda>p. fst (fst p) * 256 + snd (fst p)) al = [Suc m..<Suc m + length al]"
    unfolding u by (simp_all add: a)
  have ml: "m < length offs" using Cons.prems(2) by simp
  have fit: "to_int32 (length cv) = Inr (int (length cv))"
    "to_int32 (length val) = Inr (int (length val))"
    using Cons.prems(3) by (simp_all add: to_int32_def a)
  let ?offs = "offs[m := (int (length cv), int (length val))]"
  have p2: "Suc m + length al \<le> length ?offs" using Cons.prems(2) by simp
  have p3: "int (length (cv @ val) + length (concat (map snd al))) \<le> int32_max"
    using Cons.prems(3) by (simp add: a)
  note ih = Cons.IH [OF rest p2 p3]
  have t: "take (Suc m) ?offs = take m offs @ [(int (length cv), int (length val))]"
    using ml by (simp add: take_Suc_conv_app_nth)
  have d: "drop (Suc m + length al) ?offs = drop (Suc (m + length al)) offs" by simp
  show ?case
    using ml by (simp add: a idx fit ih t d)
qed

lemma to_int32_ids:
  "list_all (\<lambda>v. int v \<le> int32_max) ids \<Longrightarrow> map_err to_int32 ids = Inr (map int ids)"
  by (intro map_err_Inr) (auto simp: list_all_iff to_int32_def)

lemma le_bytes32_unsigned: "int n \<le> int32_max \<Longrightarrow> le_bytes32 (int n) = le_unsigned32 n"
proof -
  assume "int n \<le> int32_max"
  then have "int n mod 2 ^ 32 = int n" by (simp add: int32_max_def)
  moreover have "nat (int n div 256 ^ k mod 256) = n div 256 ^ k mod 256" for k
  proof -
    have "int n div 256 ^ k mod 256 = int (n div 256 ^ k mod 256)"
      by (simp add: zdiv_int zmod_int)
    then show ?thesis by simp
  qed
  ultimately show ?thesis by (simp add: le_bytes32_def le_unsigned32_def)
qed

lemma table_bound:
  "(a, b) \<in> set (spec_offset_table s ls) \<Longrightarrow> a + b \<le> s + length (concat ls)"
proof (induction ls arbitrary: s)
  case Nil
  then show ?case by simp
next
  case (Cons l ls)
  from Cons.prems consider "(a, b) = (s, length l)"
    | "(a, b) \<in> set (spec_offset_table (s + length l) ls)" by auto
  then show ?case
  proof cases
    case 1
    then show ?thesis by simp
  next
    case 2
    from Cons.IH [OF this] show ?thesis by simp
  qed
qed

lemma concat_window:
  assumes "k < length ls"
  shows "take (length (ls ! k)) (drop (length (concat (take k ls))) (concat ls)) = ls ! k"
proof -
  have "ls = take k ls @ ls ! k # drop (Suc k) ls" using assms by (rule id_take_nth_drop)
  then have "concat ls = concat (take k ls) @ ls ! k @ concat (drop (Suc k) ls)"
    by (metis concat.simps(2) concat_append)
  then show ?thesis by simp
qed

lemma table_bytes:
  assumes "int (s + length (concat ls)) \<le> int32_max"
  shows "tofile_offsets (map (\<lambda>(s, l). (int s, int l)) (spec_offset_table s ls)) =
         concat (map (\<lambda>(s, l). le_unsigned32 s @ le_unsigned32 l) (spec_offset_table s ls))"
proof -
  have "le_bytes32 (int a) @ le_bytes32 (int b) = le_unsigned32 a @ le_unsigned32 b"
    if "(a, b) \<in> set (spec_offset_table s ls)" for a b
  proof -
    from table_bound [OF that] assms have "int a \<le> int32_max" "int b \<le> int32_max" by simp_all
    then show ?thesis by (simp add: le_bytes32_unsigned)
  qed
  then have "map ((\<lambda>(s, l). le_bytes32 s @ le_bytes32 l) \<circ> (\<lambda>(s, l). (int s, int l)))
               (spec_offset_table s ls) =
             map (\<lambda>(s, l). le_unsigned32 s @ le_unsigned32 l) (spec_offset_table s ls)"
    by (intro map_cong) auto
  then show ?thesis by (simp only: tofile_offsets_def map_map)
qed

lemma ids_bytes:
  assumes "list_all (\<lambda>v. int v \<le> int32_max) ids"
  shows "tofile_int32 (map int ids) = concat (map le_unsigned32 ids)"
proof -
  have "map (le_bytes32 \<circ> int) ids = map le_unsigned32 ids"
    using assms by (intro map_cong) (auto simp: list_all_iff le_bytes32_unsigned)
  then show ?thesis by (simp only: tofile_int32_def map_map)
qed

lemma le_unsigned32_length: "length (le_unsigned32 n) = 4"
  by (simp add: le_unsigned32_def)

lemma length_concat_const:
  "\<forall>x \<in> set xs. length (f x) = c \<Longrightarrow> length (concat (map f xs)) = c * length xs"
  by (induction xs) simp_all

lemma restructure_pickle_spec:
  assumes keys: "map fst (data_index_inverted_lists data) = grid_keys 256"
    and ids: "list_all (\<lambda>v. int v \<le> int32_max) (concat (map snd (data_index_inverted_lists data)))"
    and total: "int (length (concat (map snd (data_index_inverted_lists data)))) \<le> int32_max"
  shows "restructure_pickle data =
           Inr \<lparr> centroids_pkl = (data_centroids1 data, data_centroids2 data),
                 index_offsets_bin = map (\<lambda>(s, l). (int s, int l))
                   (spec_offset_table 0 (map snd (data_index_inverted_lists data))),
                 concatenated_values_bin =
                   map int (concat (map snd (data_index_inverted_lists data))) \<rparr>"
proof -
  let ?al = "data_index_inverted_lists data"
  have len: "length ?al = 65536"
    using arg_cong [OF keys, of length] by (simp add: grid_keys_length)
  have "map (\<lambda>p. fst (fst p) * 256 + snd (fst p)) ?al =
        map (\<lambda>p. fst p * 256 + snd p) (map fst ?al)" by (simp add: comp_def)
  also have "\<dots> = [0..<256 * 256]" unfolding keys by (rule grid_keys_index)
  finally have idx: "map (\<lambda>p. fst (fst p) * 256 + snd (fst p)) ?al = [0..<0 + length ?al]"
    by (simp add: len)
  have loop: "restructure_loop ?al [] (replicate (256 * 256) (0, 0)) =
                Inr ([] @ concat (map snd ?al),
                     take 0 (replicate (256 * 256) (0, 0))
                       @ map (\<lambda>(s, l). (int s, int l)) (spec_offset_table (length ([] :: nat list)) (map snd ?al))
                       @ drop (0 + length ?al) (replicate (256 * 256) (0, 0)))"
  proof (rule restructure_loop_spec [OF idx])
    show "0 + length ?al \<le> length (replicate (256 * 256) ((0, 0) :: int \<times> int))"
      by (simp add: len)
    show "int (length ([] :: nat list) + length (concat (map snd ?al))) \<le> int32_max"
      using total by simp
  qed
  then have loop': "restructure_loop ?al [] (replicate 65536 (0, 0)) =
                Inr (concat (map snd ?al),
                     map (\<lambda>(s, l). (int s, int l)) (spec_offset_table 0 (map snd ?al)))"
    by (simp add: len)
  show ?thesis
    by (simp add: restructure_pickle_def loop' to_int32_ids [OF ids])
qed

text \<open>
  C9, as the code has it. Whatever the mapping, the offset table that is written has
  \<open>256\<^sup>2\<close> records: the table is made with that many rows and the loop only
  overwrites rows. For the mapping of an index with 256 centroids a side, its keys being
  the \<open>256\<^sup>2\<close> pairs in lexicographic order as \<open>train\<close> inserts them, with every id
  and the number of ids within \<^verbatim>\<open>int32\<close>, \<open>restructure_pickle\<close> returns, and
  the files are those of the specification: the id run is the concatenation of the
  lists in key order; the offset table is the table of \<open>(start, length)\<close> of the lists
  in that order, so that record \<open>k\<close> belongs to the pair \<open>(k div 256, k mod 256)\<close>, its
  start is the number of ids of the lists before it, its length that of its list, and
  the window \<open>[start, start + length)\<close> of the id run is its list; the first start is 0
  and \<open>start[k + 1] = start[k] + length[k]\<close>; and the bytes written, four for each
  number and least significant first, are those of the unsigned encoding, the numbers
  being non-negative and below \<open>2\<^sup>3\<^sup>1\<close>. The centroids go to their own file
  unchanged.
\<close>

theorem restructure_pickle_files:
  "(\<forall>files. restructure_pickle data = Inr files \<longrightarrow>
      length (index_offsets_bin files) = 256 * 256) \<and>
   (map fst (data_index_inverted_lists data) = grid_keys 256 \<and>
    list_all (\<lambda>v. int v \<le> int32_max) (concat (map snd (data_index_inverted_lists data))) \<and>
    int (length (concat (map snd (data_index_inverted_lists data)))) \<le> int32_max \<longrightarrow>
    (\<exists>files. restructure_pickle data = Inr files \<and>
       centroids_pkl files = (data_centroids1 data, data_centroids2 data) \<and>
       length (index_offsets_bin files) = 256 * 256 \<and>
       index_offsets_bin files =
         map (\<lambda>(s, l). (int s, int l))
           (spec_offset_table 0 (map snd (data_index_inverted_lists data))) \<and>
       concatenated_values_bin files =
         map int (concat (map snd (data_index_inverted_lists data))) \<and>
       (\<forall>k < 256 * 256.
          fst (data_index_inverted_lists data ! k) = (k div 256, k mod 256) \<and>
          index_offsets_bin files ! k =
            (int (length (concat (map snd (take k (data_index_inverted_lists data))))),
             int (length (snd (data_index_inverted_lists data ! k)))) \<and>
          slice (length (concat (map snd (take k (data_index_inverted_lists data)))))
            (length (concat (map snd (take k (data_index_inverted_lists data))))
               + length (snd (data_index_inverted_lists data ! k)))
            (concatenated_values_bin files) =
            map int (snd (data_index_inverted_lists data ! k))) \<and>
       fst (index_offsets_bin files ! 0) = 0 \<and>
       (\<forall>k. Suc k < 256 * 256 \<longrightarrow>
          fst (index_offsets_bin files ! Suc k) =
            fst (index_offsets_bin files ! k) + snd (index_offsets_bin files ! k)) \<and>
       tofile_offsets (index_offsets_bin files) =
         concat (map (\<lambda>(s, l). le_unsigned32 s @ le_unsigned32 l)
                   (spec_offset_table 0 (map snd (data_index_inverted_lists data)))) \<and>
       length (tofile_offsets (index_offsets_bin files)) = 8 * (256 * 256) \<and>
       tofile_int32 (concatenated_values_bin files) =
         concat (map le_unsigned32 (concat (map snd (data_index_inverted_lists data)))) \<and>
       length (tofile_int32 (concatenated_values_bin files)) =
         4 * length (concat (map snd (data_index_inverted_lists data)))))"
proof (intro conjI allI impI)
  fix files
  assume "restructure_pickle data = Inr files"
  then obtain cv offs where
    l: "restructure_loop (data_index_inverted_lists data) [] (replicate (256 * 256) (0, 0))
          = Inr (cv, offs)"
    and f: "index_offsets_bin files = offs"
    by (auto simp: restructure_pickle_def split: sum.splits prod.splits)
  from restructure_loop_length [OF l] f
  show "length (index_offsets_bin files) = 256 * 256" by simp
next
  let ?al = "data_index_inverted_lists data"
  let ?ls = "map snd ?al"
  let ?tbl = "spec_offset_table 0 ?ls"
  let ?offs = "map (\<lambda>(s, l). (int s, int l)) ?tbl"
  let ?vals = "map int (concat ?ls)"
  let ?files = "\<lparr> centroids_pkl = (data_centroids1 data, data_centroids2 data),
                  index_offsets_bin = ?offs, concatenated_values_bin = ?vals \<rparr>"
  assume h: "map fst ?al = grid_keys 256 \<and>
    list_all (\<lambda>v. int v \<le> int32_max) (concat ?ls) \<and>
    int (length (concat ?ls)) \<le> int32_max"
  then have keys: "map fst ?al = grid_keys 256"
    and ids: "list_all (\<lambda>v. int v \<le> int32_max) (concat ?ls)"
    and total: "int (length (concat ?ls)) \<le> int32_max"
    by simp_all
  have res: "restructure_pickle data = Inr ?files"
    by (rule restructure_pickle_spec [OF keys ids total])
  have len: "length ?al = 65536"
    using arg_cong [OF keys, of length] by (simp add: grid_keys_length)
  have lt: "length ?tbl = 65536" by (simp add: table_length len)
  have nth: "?offs ! k = (int (length (concat (map snd (take k ?al)))), int (length (snd (?al ! k))))"
    if "k < 65536" for k
    using that by (simp add: lt len table_nth take_map)
  have key: "fst (?al ! k) = (k div 256, k mod 256)" if "k < 65536" for k
  proof -
    have "fst (?al ! k) = map fst ?al ! k" using that len by simp
    then show ?thesis using that by (simp add: keys grid_keys_nth)
  qed
  have win: "slice (length (concat (map snd (take k ?al))))
               (length (concat (map snd (take k ?al))) + length (snd (?al ! k))) ?vals =
             map int (snd (?al ! k))" if "k < 65536" for k
  proof -
    have "take (length (?ls ! k)) (drop (length (concat (take k ?ls))) (concat ?ls)) = ?ls ! k"
      using that len by (intro concat_window) simp
    then show ?thesis using that len by (simp add: slice_def take_map drop_map)
  qed
  have first: "fst (?offs ! 0) = 0" using nth [of 0] by simp
  have step: "fst (?offs ! Suc k) = fst (?offs ! k) + snd (?offs ! k)" if "Suc k < 65536" for k
  proof -
    have k: "k < 65536" using that by simp
    have "take (Suc k) ?al = take k ?al @ [?al ! k]"
      using k len by (simp add: take_Suc_conv_app_nth)
    then show ?thesis using nth [OF that] nth [OF k] by simp
  qed
  have ob: "tofile_offsets ?offs =
            concat (map (\<lambda>(s, l). le_unsigned32 s @ le_unsigned32 l) ?tbl)"
    using total by (intro table_bytes) simp
  have obl: "length (tofile_offsets ?offs) = 8 * (256 * 256)"
    unfolding ob using length_concat_const [of ?tbl "\<lambda>(s, l). le_unsigned32 s @ le_unsigned32 l" 8]
    by (simp add: lt le_unsigned32_length split_beta)
  have vb: "tofile_int32 ?vals = concat (map le_unsigned32 (concat ?ls))"
    by (rule ids_bytes [OF ids])
  have vbl: "length (tofile_int32 ?vals) = 4 * length (concat ?ls)"
    unfolding vb using length_concat_const [of "concat ?ls" le_unsigned32 4]
    by (simp add: le_unsigned32_length)
  have big: "restructure_pickle data = Inr ?files \<and>
       centroids_pkl ?files = (data_centroids1 data, data_centroids2 data) \<and>
       length (index_offsets_bin ?files) = 256 * 256 \<and>
       index_offsets_bin ?files = ?offs \<and>
       concatenated_values_bin ?files = ?vals \<and>
       (\<forall>k < 256 * 256.
          fst (?al ! k) = (k div 256, k mod 256) \<and>
          index_offsets_bin ?files ! k =
            (int (length (concat (map snd (take k ?al)))), int (length (snd (?al ! k)))) \<and>
          slice (length (concat (map snd (take k ?al))))
            (length (concat (map snd (take k ?al))) + length (snd (?al ! k)))
            (concatenated_values_bin ?files) = map int (snd (?al ! k))) \<and>
       fst (index_offsets_bin ?files ! 0) = 0 \<and>
       (\<forall>k. Suc k < 256 * 256 \<longrightarrow>
          fst (index_offsets_bin ?files ! Suc k) =
            fst (index_offsets_bin ?files ! k) + snd (index_offsets_bin ?files ! k)) \<and>
       tofile_offsets (index_offsets_bin ?files) =
         concat (map (\<lambda>(s, l). le_unsigned32 s @ le_unsigned32 l) ?tbl) \<and>
       length (tofile_offsets (index_offsets_bin ?files)) = 8 * (256 * 256) \<and>
       tofile_int32 (concatenated_values_bin ?files) =
         concat (map le_unsigned32 (concat ?ls)) \<and>
       length (tofile_int32 (concatenated_values_bin ?files)) = 4 * length (concat ?ls)"
    using res lt nth key win first step ob obl vb vbl by simp
  show "\<exists>files. restructure_pickle data = Inr files \<and>
       centroids_pkl files = (data_centroids1 data, data_centroids2 data) \<and>
       length (index_offsets_bin files) = 256 * 256 \<and>
       index_offsets_bin files = ?offs \<and>
       concatenated_values_bin files = ?vals \<and>
       (\<forall>k < 256 * 256.
          fst (?al ! k) = (k div 256, k mod 256) \<and>
          index_offsets_bin files ! k =
            (int (length (concat (map snd (take k ?al)))), int (length (snd (?al ! k)))) \<and>
          slice (length (concat (map snd (take k ?al))))
            (length (concat (map snd (take k ?al))) + length (snd (?al ! k)))
            (concatenated_values_bin files) = map int (snd (?al ! k))) \<and>
       fst (index_offsets_bin files ! 0) = 0 \<and>
       (\<forall>k. Suc k < 256 * 256 \<longrightarrow>
          fst (index_offsets_bin files ! Suc k) =
            fst (index_offsets_bin files ! k) + snd (index_offsets_bin files ! k)) \<and>
       tofile_offsets (index_offsets_bin files) =
         concat (map (\<lambda>(s, l). le_unsigned32 s @ le_unsigned32 l) ?tbl) \<and>
       length (tofile_offsets (index_offsets_bin files)) = 8 * (256 * 256) \<and>
       tofile_int32 (concatenated_values_bin files) =
         concat (map le_unsigned32 (concat ?ls)) \<and>
       length (tofile_int32 (concatenated_values_bin files)) = 4 * length (concat ?ls)"
    by (rule exI [where x = ?files]) (rule big)
qed

text \<open>The theorem of C9 for the mapping in which the list of the pair \<open>(i, j)\<close> holds
  the one id \<open>i * 256 + j\<close>.\<close>

theorem restructure_pickle_files_witness:
  "map fst (map (\<lambda>k. (k, [fst k * 256 + snd k])) (grid_keys 256)) = grid_keys 256 \<and>
   (\<exists>files. restructure_pickle
       \<lparr> data_centroids1 = Some (replicate 256 [1::real]),
         data_centroids2 = Some (replicate 256 [1]),
         data_index_inverted_lists = map (\<lambda>k. (k, [fst k * 256 + snd k])) (grid_keys 256) \<rparr>
       = Inr files \<and>
     length (index_offsets_bin files) = 65536 \<and>
     concatenated_values_bin files = map int [0..<65536] \<and>
     index_offsets_bin files ! 0 = (0, 1) \<and>
     index_offsets_bin files ! 257 = (257, 1) \<and>
     slice 257 258 (concatenated_values_bin files) = [257] \<and>
     fst (index_offsets_bin files ! 258) =
       fst (index_offsets_bin files ! 257) + snd (index_offsets_bin files ! 257) \<and>
     length (tofile_offsets (index_offsets_bin files)) = 524288 \<and>
     length (tofile_int32 (concatenated_values_bin files)) = 262144)"
proof -
  define f :: "nat \<times> nat \<Rightarrow> nat" where "f = (\<lambda>k. fst k * 256 + snd k)"
  define al where "al = map (\<lambda>k. (k, [f k])) (grid_keys 256)"
  define data where "data = \<lparr> data_centroids1 = Some (replicate 256 [1::real]),
         data_centroids2 = Some (replicate 256 [1]), data_index_inverted_lists = al \<rparr>"
  have d: "data_index_inverted_lists data = al" by (simp add: data_def)
  have keys: "map fst al = grid_keys 256" by (simp add: al_def comp_def)
  have len: "length al = 65536" by (simp add: al_def grid_keys_length)
  have cc: "concat (map snd (take k al)) = map f (take k (grid_keys 256))" for k
    by (simp add: al_def take_map comp_def concat_map_singleton)
  have c: "concat (map snd al) = [0..<65536]"
  proof -
    have "concat (map snd al) = map f (grid_keys 256)"
      by (simp add: al_def comp_def concat_map_singleton)
    also have "\<dots> = [0..<256 * 256]" unfolding f_def by (rule grid_keys_index)
    finally show ?thesis by simp
  qed
  have lc: "length (concat (map snd (take k al))) = min k 65536" for k
    by (simp add: cc grid_keys_length min.commute)
  have nth: "snd (al ! k) = [k]" if "k < 65536" for k
  proof -
    have "f (grid_keys 256 ! k) = map f (grid_keys 256) ! k"
      using that by (simp add: grid_keys_length)
    also have "\<dots> = k" unfolding f_def grid_keys_index using that by simp
    finally show ?thesis using that by (simp add: al_def grid_keys_length)
  qed
  have ids: "list_all (\<lambda>v. int v \<le> int32_max) (concat (map snd al))"
    unfolding c list_all_iff by (simp add: int32_max_def del: upt_rec_numeral)
  have total: "int (length (concat (map snd al))) \<le> int32_max"
    unfolding c by (simp add: int32_max_def del: upt_rec_numeral)
  from restructure_pickle_files [of data, THEN conjunct2, unfolded d] keys ids total
  obtain files where r: "restructure_pickle data = Inr files"
    and l: "length (index_offsets_bin files) = 256 * 256"
    and v: "concatenated_values_bin files = map int (concat (map snd al))"
    and n: "\<forall>k < 256 * 256.
          fst (al ! k) = (k div 256, k mod 256) \<and>
          index_offsets_bin files ! k =
            (int (length (concat (map snd (take k al)))), int (length (snd (al ! k)))) \<and>
          slice (length (concat (map snd (take k al))))
            (length (concat (map snd (take k al))) + length (snd (al ! k)))
            (concatenated_values_bin files) = map int (snd (al ! k))"
    and s: "\<forall>k. Suc k < 256 * 256 \<longrightarrow>
          fst (index_offsets_bin files ! Suc k) =
            fst (index_offsets_bin files ! k) + snd (index_offsets_bin files ! k)"
    and ob: "length (tofile_offsets (index_offsets_bin files)) = 8 * (256 * 256)"
    and vb: "length (tofile_int32 (concatenated_values_bin files)) =
               4 * length (concat (map snd al))"
    by blast
  have n0: "index_offsets_bin files ! 0 = (0, 1)"
    using n [rule_format, of 0] by (simp add: lc nth)
  have n257: "index_offsets_bin files ! 257 = (257, 1)"
    "slice 257 258 (concatenated_values_bin files) = [257]"
    using n [rule_format, of 257] by (simp_all add: lc nth)
  have s257: "fst (index_offsets_bin files ! 258) =
       fst (index_offsets_bin files ! 257) + snd (index_offsets_bin files ! 257)"
    using s [rule_format, of 257] by simp
  have "restructure_pickle data = Inr files \<and>
     length (index_offsets_bin files) = 65536 \<and>
     concatenated_values_bin files = map int [0..<65536] \<and>
     index_offsets_bin files ! 0 = (0, 1) \<and>
     index_offsets_bin files ! 257 = (257, 1) \<and>
     slice 257 258 (concatenated_values_bin files) = [257] \<and>
     fst (index_offsets_bin files ! 258) =
       fst (index_offsets_bin files ! 257) + snd (index_offsets_bin files ! 257) \<and>
     length (tofile_offsets (index_offsets_bin files)) = 524288 \<and>
     length (tofile_int32 (concatenated_values_bin files)) = 262144"
    using r l v n0 n257 s257 ob vb unfolding c by (simp del: upt_rec_numeral)
  then have "\<exists>files. restructure_pickle data = Inr files \<and>
     length (index_offsets_bin files) = 65536 \<and>
     concatenated_values_bin files = map int [0..<65536] \<and>
     index_offsets_bin files ! 0 = (0, 1) \<and>
     index_offsets_bin files ! 257 = (257, 1) \<and>
     slice 257 258 (concatenated_values_bin files) = [257] \<and>
     fst (index_offsets_bin files ! 258) =
       fst (index_offsets_bin files ! 257) + snd (index_offsets_bin files ! 257) \<and>
     length (tofile_offsets (index_offsets_bin files)) = 524288 \<and>
     length (tofile_int32 (concatenated_values_bin files)) = 262144"
    by (intro exI [where x = files])
  then show ?thesis
    unfolding data_def al_def f_def by (simp add: comp_def del: upt_rec_numeral)
qed

text \<open>
  C9 as stated fails. For the mapping of an index with two centroids a side and one id
  in each list, the table that is written has \<open>65536\<close> records and not \<open>2\<^sup>2\<close>; the
  pairs \<open>(1, 0)\<close> and \<open>(1, 1)\<close> are in the records 256 and 257 and not in the records
  2 and 3, which stay \<open>(0, 0)\<close>; so the start of record 2 is not the start of record
  1 plus its length.
\<close>

theorem restructure_pickle_counterexample:
  "\<exists>files. restructure_pickle
       \<lparr> data_centroids1 = Some [[-1], [1::real]], data_centroids2 = Some [[1], [-1]],
         data_index_inverted_lists =
           [((0, 0), [0]), ((0, 1), [1]), ((1, 0), [2]), ((1, 1), [3])] \<rparr> = Inr files \<and>
     length (index_offsets_bin files) = 65536 \<and>
     index_offsets_bin files ! 1 = (1, 1) \<and>
     index_offsets_bin files ! 2 = (0, 0) \<and>
     index_offsets_bin files ! 3 = (0, 0) \<and>
     index_offsets_bin files ! 256 = (2, 1) \<and>
     index_offsets_bin files ! 257 = (3, 1) \<and>
     concatenated_values_bin files = [0, 1, 2, 3]"
  by (simp add: restructure_pickle_def Let_def to_int32_def int32_max_def)

end
